theory Spec2Isabelle
  imports Complex_Main "HOL-Library.AList"
begin

section \<open>Values\<close>

text \<open>
  The engine is Python: prices, quantities and money are floats, sides and order ids are
  strings, commands are JSON documents. Floats are modelled as \<^typ>\<open>real\<close>: every theorem
  below is about the engine's arithmetic carried out exactly, rounding is not modelled.
  The literal \<^verbatim>\<open>1e-12\<close> is the real number \<open>1 / 10 ^ 12\<close>.
\<close>

datatype json =
    JNull
  | JBool bool
  | JNum real
  | JStr string
  | JArr "json list"
  | JObj "(string \<times> json) list"

text \<open>
  A side is whatever Python object the caller passes: \<^verbatim>\<open>'buy'\<close> and \<^verbatim>\<open>'sell'\<close> from the
  engine itself, any JSON value from a \<^verbatim>\<open>place_limit\<close> command.
\<close>

abbreviation BUY :: json where "BUY \<equiv> JStr ''buy''"
abbreviation SELL :: json where "SELL \<equiv> JStr ''sell''"

definition EPS :: real where
  "EPS = 1 / 10 ^ 12"

datatype error = KeyError | TypeError | ValueError | AttributeError | ZeroDivisionError | OSError

section \<open>Ledger: FIFO lots and realized PnL\<close>

record lot =
  contracts :: real
  price :: real

record trade =
  t_side :: json
  t_price :: real
  t_contracts :: real

text \<open>\<^verbatim>\<open>deque(maxlen=n).append(x)\<close>: the oldest entry is evicted when the deque is full.\<close>

definition deque_append :: "nat \<Rightarrow> 'a list \<Rightarrow> 'a \<Rightarrow> 'a list" where
  "deque_append n xs x = (let ys = xs @ [x] in drop (length ys - n) ys)"

record ledger =
  trades_log :: "trade list"
  inventory :: "lot list"
  realized_pnl :: real
  fills_at :: "real \<Rightarrow> nat \<times> nat"

text \<open>
  The \<^verbatim>\<open>while to_sell > 1e-12 and self.inventory\<close> loop of \<^verbatim>\<open>on_fill\<close>, on the triple
  (\<^verbatim>\<open>to_sell\<close>, \<^verbatim>\<open>self.inventory\<close>, \<^verbatim>\<open>self.realized_pnl\<close>); \<open>cs\<close> is \<^verbatim>\<open>contract_size\<close>,
  \<open>fr\<close> is \<^verbatim>\<open>fee_rate\<close>, \<open>px\<close> the price of the sell fill.
\<close>

function sell_loop :: "real \<Rightarrow> real \<Rightarrow> real \<Rightarrow> real \<Rightarrow> lot list \<Rightarrow> real \<Rightarrow> lot list \<times> real" where
  "sell_loop cs fr px to_sell [] rp = ([], rp)"
| "sell_loop cs fr px to_sell (l # rest) rp =
     (if to_sell > EPS then
        (if contracts l - min to_sell (contracts l) \<le> EPS
         then sell_loop cs fr px (to_sell - min to_sell (contracts l)) rest
                (rp + ((px - price l) * (min to_sell (contracts l) * cs)
                       - (fr * px * (min to_sell (contracts l) * cs)
                          + fr * price l * (min to_sell (contracts l) * cs))))
         else sell_loop cs fr px (to_sell - min to_sell (contracts l))
                (l\<lparr>contracts := contracts l - min to_sell (contracts l)\<rparr> # rest)
                (rp + ((px - price l) * (min to_sell (contracts l) * cs)
                       - (fr * px * (min to_sell (contracts l) * cs)
                          + fr * price l * (min to_sell (contracts l) * cs)))))
      else (l # rest, rp))"
  by pat_completeness auto
termination
  by (relation "measure (\<lambda>(cs, fr, px, to_sell, lots, rp).
        2 * length lots + (if to_sell > EPS then 1 else 0))")
     (auto simp: EPS_def min_def split: if_splits)

declare sell_loop.simps(2) [simp del]

text \<open>
  \<^verbatim>\<open>on_fill(side, price, contracts)\<close>. The trade is logged (its timestamp is left out),
  \<^verbatim>\<open>self.fills_at[price][side] += 1\<close> raises \<^verbatim>\<open>KeyError\<close> for a side that is neither
  \<^verbatim>\<open>'buy'\<close> nor \<^verbatim>\<open>'sell'\<close> (the counters are a dict with these two keys; \<^verbatim>\<open>TypeError\<close>
  for a list or a dict, which cannot be a key), a buy appends a lot, a sell runs the
  loop. The result is the exception raised, if any, and the ledger as the call leaves it.
\<close>

definition on_fill ::
  "real \<Rightarrow> real \<Rightarrow> json \<Rightarrow> real \<Rightarrow> real \<Rightarrow> 'a ledger_scheme \<Rightarrow> error option \<times> 'a ledger_scheme" where
  "on_fill cs fr side px cts g =
     (let g1 = g\<lparr>trades_log := deque_append 5000 (trades_log g)
                   \<lparr>t_side = side, t_price = px, t_contracts = cts\<rparr>\<rparr> in
      if side = BUY then
        (None, g1\<lparr>fills_at := (fills_at g1)(px := (Suc (fst (fills_at g1 px)), snd (fills_at g1 px))),
                  inventory := inventory g1 @ [\<lparr>contracts = cts, price = px\<rparr>]\<rparr>)
      else if side = SELL then
        (let r = sell_loop cs fr px cts (inventory g1) (realized_pnl g1) in
         (None, g1\<lparr>fills_at := (fills_at g1)(px := (fst (fills_at g1 px), Suc (snd (fills_at g1 px)))),
                   inventory := fst r, realized_pnl := snd r\<rparr>))
      else (Some (case side of JArr xs \<Rightarrow> TypeError | JObj kvs \<Rightarrow> TypeError | _ \<Rightarrow> KeyError), g1))"

text \<open>The sum of the lots' contracts, as \<^verbatim>\<open>snapshot_and_dump\<close> and the heartbeat compute it.\<close>

definition total_contracts :: "lot list \<Rightarrow> real" where
  "total_contracts lots = sum_list (map contracts lots)"

text \<open>
  A sequence of fills \<open>(side, price, contracts)\<close> applied in order; an exception ends
  the sequence, as it would end the caller.
\<close>

fun apply_fills ::
  "real \<Rightarrow> real \<Rightarrow> (json \<times> real \<times> real) list \<Rightarrow> 'a ledger_scheme \<Rightarrow> error option \<times> 'a ledger_scheme" where
  "apply_fills cs fr [] g = (None, g)"
| "apply_fills cs fr ((side, px, cts) # fs) g =
     (case on_fill cs fr side px cts g of
        (Some e, g') \<Rightarrow> (Some e, g')
      | (None, g') \<Rightarrow> apply_fills cs fr fs g')"

definition empty_ledger :: ledger where
  "empty_ledger = \<lparr>trades_log = [], inventory = [], realized_pnl = 0, fills_at = (\<lambda>_. (0, 0))\<rparr>"

section \<open>The engine and the world around it\<close>

text \<open>
  \<^verbatim>\<open>order_meta[oid]\<close>: the price and side an order was placed with and the filled quantity
  last seen for it.
\<close>

record meta =
  m_price :: real
  m_side :: json
  m_last_filled :: real

record equity_sample =
  e_equity :: real
  e_realized :: real
  e_unrealized :: real

text \<open>The document \<^verbatim>\<open>snapshot_and_dump\<close> writes (timestamps and constant fields left out).\<close>

record snapshot =
  d_current_price :: real
  d_open_orders :: "(real \<times> string \<times> json) list"
  d_inventory_contracts :: real
  d_inventory_avg_cost :: real
  d_realized_pnl :: real
  d_unrealized_pnl :: real
  d_equity :: real
  d_price_band :: "real \<times> real"
  d_trades :: "trade list"
  d_equity_series :: "equity_sample list"

text \<open>
  Every call the engine makes to the outside: the venue (through ccxt), the clock and the
  state file. \<open>CreateOrder type side amount price reduceOnly\<close> is
  \<^verbatim>\<open>okx.create_order(symbol, type, side, amount, price, params)\<close>, the flag telling whether
  \<^verbatim>\<open>params\<close> carries \<^verbatim>\<open>reduceOnly: True\<close>. The injected \<^verbatim>\<open>place_limit(side, price, qty)\<close> is
  the one \<^verbatim>\<open>main.py\<close> passes: \<^verbatim>\<open>create_order\<close> of a limit order with \<^verbatim>\<open>{'tdMode': 'cross'}\<close>.
\<close>

datatype call =
    FetchTicker
  | FetchOrderBook
  | PriceLimit
  | Clock
  | CreateOrder string json real "real option" bool
  | CancelOrder string
  | FetchOrder string
  | WriteState snapshot

record ticker =
  markPx :: "real option"
  last_px :: "real option"

record order_status =
  o_filled :: real
  o_status :: string

text \<open>
  The outside world answers a call knowing all calls made so far, the current one last.
  \<open>None\<close> (for \<open>cancel_order\<close> and \<open>write_state\<close>: \<open>False\<close>) is an exception raised by the
  call. \<open>fetch_ticker\<close> gives \<^verbatim>\<open>info.markPx\<close> and \<^verbatim>\<open>last\<close> where they are numbers,
  \<open>fetch_order_book\<close> the best bid and ask where both sides are non-empty, \<open>price_limit\<close>
  the \<^verbatim>\<open>buyLmt\<close> and \<^verbatim>\<open>sellLmt\<close> of the first row, \<open>create_order\<close> the new order's
  \<^verbatim>\<open>id\<close>, \<open>fetch_order\<close> the order's \<^verbatim>\<open>filled\<close> (0 when absent) and \<^verbatim>\<open>status\<close> (empty when
  absent).
\<close>

record world =
  fetch_ticker :: "call list \<Rightarrow> ticker option"
  fetch_order_book :: "call list \<Rightarrow> (real \<times> real) option option"
  price_limit :: "call list \<Rightarrow> (real \<times> real) option"
  clock :: "call list \<Rightarrow> real"
  create_order :: "call list \<Rightarrow> string option"
  cancel_order :: "call list \<Rightarrow> bool"
  fetch_order :: "call list \<Rightarrow> order_status option"
  write_state :: "call list \<Rightarrow> bool"

text \<open>What the engine prints, one constructor for each \<^verbatim>\<open>print\<close>.\<close>

datatype msg =
    SkipBuy real real
  | SkipSell real real
  | Placed json real string
  | PlaceErr json real
  | CancelErr string
  | Canceled real
  | CanceledAll
  | MarketPlaced json real string
  | MarketErr json
  | Closed json real real
  | FirstFillIgnored
  | CmdSkipPlaceLimit real
  | CmdPlaced json real string
  | CmdPlaceLimitError
  | CmdHold string real
  | CmdRestoreFailed real
  | CmdRestoreSkippedQty real
  | CmdRestoreSkippedHasOrder real
  | ProcessCommandsError error
  | Initialized bool real real
  | Started
  | Stopped
  | Heartbeat nat nat nat real real

text \<open>
  The constructor's arguments that never change. \<open>p_prec\<close> and \<open>q_prec\<close> are ccxt's
  \<^verbatim>\<open>price_to_precision\<close> and \<^verbatim>\<open>amount_to_precision\<close> (pure functions of the market's
  precision), \<open>str_to_float\<close> is Python's \<^verbatim>\<open>float\<close> on a string (\<open>None\<close>: \<^verbatim>\<open>ValueError\<close>).
\<close>

record config =
  entry_price :: real
  contract_size :: real
  levels :: "real list"
  GRID_QTY_BY_LEVEL :: "(real \<times> real) list"
  fee_rate :: real
  band_ttl :: real
  init_position_enabled :: bool
  p_prec :: "real \<Rightarrow> real"
  q_prec :: "real \<Rightarrow> real"
  str_to_float :: "string \<Rightarrow> real option"

text \<open>
  A line of the command file as \<^verbatim>\<open>json.loads\<close> sees it: \<open>None\<close> when it raises. Blank lines
  are dropped when the file is read and do not appear.
\<close>

type_synonym line = "json option"

text \<open>
  The engine's mutable state: the ledger's fields, the two dicts (association lists in
  insertion order, written with \<^const>\<open>AList.update\<close> and \<^const>\<open>AList.delete\<close>), the band
  cache, the two flags, the command file (\<open>None\<close>: it does not exist), the calls made and
  the lines printed so far.
\<close>

record engine = ledger +
  open_orders :: "(real \<times> string) list"
  order_meta :: "(string \<times> meta) list"
  equity_series :: "equity_sample list"
  band_cache :: "(real \<times> real) option"
  band_ts :: real
  initialized_full :: bool
  first_fill_ignore :: bool
  commands_file :: "line list option"
  calls :: "call list"
  out :: "msg list"

text \<open>\<^verbatim>\<open>GridEngine.__init__\<close>: the levels are rounded, deduplicated and sorted.\<close>

definition new_config ::
  "(real \<Rightarrow> real) \<Rightarrow> (real \<Rightarrow> real) \<Rightarrow> (string \<Rightarrow> real option) \<Rightarrow> real \<Rightarrow> real \<Rightarrow> real list \<Rightarrow>
   (real \<times> real) list \<Rightarrow> real \<Rightarrow> real \<Rightarrow> bool \<Rightarrow> config" where
  "new_config pp qp sf entry csize lvls qtys fee ttl init_position =
     \<lparr>entry_price = entry, contract_size = csize,
      levels = sort (remdups (map pp lvls)),
      GRID_QTY_BY_LEVEL = foldl (\<lambda>d (k, v). AList.update (pp k) v d) [] qtys,
      fee_rate = fee, band_ttl = ttl, init_position_enabled = init_position,
      p_prec = pp, q_prec = qp, str_to_float = sf\<rparr>"

definition new_engine :: "bool \<Rightarrow> engine" where
  "new_engine init_position =
     \<lparr>trades_log = [], inventory = [], realized_pnl = 0, fills_at = (\<lambda>_. (0, 0)),
      open_orders = [], order_meta = [], equity_series = [],
      band_cache = None, band_ts = 0,
      initialized_full = False, first_fill_ignore = init_position,
      commands_file = None, calls = [], out = []\<rparr>"

text \<open>\<^verbatim>\<open>self.GRID_QTY_BY_LEVEL.get(p, 0.0)\<close>.\<close>

definition grid_qty :: "config \<Rightarrow> real \<Rightarrow> real" where
  "grid_qty c p = (case map_of (GRID_QTY_BY_LEVEL c) p of None \<Rightarrow> 0 | Some q \<Rightarrow> q)"

text \<open>\<^verbatim>\<open>neighbor_above\<close>, \<^verbatim>\<open>neighbor_below\<close>: \<^verbatim>\<open>hs[0]\<close> and \<^verbatim>\<open>ls[-1]\<close> of the filtered levels.\<close>

definition neighbor_above :: "config \<Rightarrow> real \<Rightarrow> real option" where
  "neighbor_above c p =
     (case filter (\<lambda>x. x > p) (levels c) of [] \<Rightarrow> None | h # _ \<Rightarrow> Some h)"

definition neighbor_below :: "config \<Rightarrow> real \<Rightarrow> real option" where
  "neighbor_below c p =
     (let ls = filter (\<lambda>x. x < p) (levels c) in if ls = [] then None else Some (last ls))"

text \<open>
  \<^verbatim>\<open>current_mark_or_mid\<close>: the mark price when the ticker has a non-zero one, else the
  order book's mid, else the ticker's last price (\<^verbatim>\<open>entry_price\<close> when that is absent or
  zero); \<^verbatim>\<open>entry_price\<close>, unrounded, when a call raises.
\<close>

definition mid_or_last :: "config \<Rightarrow> world \<Rightarrow> ticker \<Rightarrow> engine \<Rightarrow> real \<times> engine" where
  "mid_or_last c w tk s =
     (let s1 = s\<lparr>calls := calls s @ [FetchOrderBook]\<rparr> in
      case fetch_order_book w (calls s1) of
        None \<Rightarrow> (entry_price c, s1)
      | Some (Some (bid, ask)) \<Rightarrow> (p_prec c ((bid + ask) / 2), s1)
      | Some None \<Rightarrow>
          (p_prec c (case last_px tk of None \<Rightarrow> entry_price c
                     | Some l \<Rightarrow> if l = 0 then entry_price c else l), s1))"

definition current_mark_or_mid :: "config \<Rightarrow> world \<Rightarrow> engine \<Rightarrow> real \<times> engine" where
  "current_mark_or_mid c w s =
     (let s1 = s\<lparr>calls := calls s @ [FetchTicker]\<rparr> in
      case fetch_ticker w (calls s1) of
        None \<Rightarrow> (entry_price c, s1)
      | Some tk \<Rightarrow>
          (case markPx tk of
             Some m \<Rightarrow> if m \<noteq> 0 then (p_prec c m, s1) else mid_or_last c w tk s1
           | None \<Rightarrow> mid_or_last c w tk s1))"

text \<open>
  \<^verbatim>\<open>fetch_price_band_cached(fallback_price)\<close>: the cached band while it is younger than
  \<^verbatim>\<open>band_ttl\<close>, else the venue's price limits, else 2 percent around the fallback price.
\<close>

definition cached_band :: "config \<Rightarrow> real \<Rightarrow> engine \<Rightarrow> (real \<times> real) option" where
  "cached_band c now s =
     (case band_cache s of
        None \<Rightarrow> None
      | Some band \<Rightarrow> if now - band_ts s < band_ttl c then Some band else None)"

definition fetch_price_band_cached ::
  "config \<Rightarrow> world \<Rightarrow> real \<Rightarrow> engine \<Rightarrow> (real \<times> real) \<times> engine" where
  "fetch_price_band_cached c w fallback_price s =
     (let s1 = s\<lparr>calls := calls s @ [Clock]\<rparr>; now = clock w (calls s1) in
      case cached_band c now s1 of
        Some band \<Rightarrow> (band, s1)
      | None \<Rightarrow>
          (let s2 = s1\<lparr>calls := calls s1 @ [PriceLimit]\<rparr>;
               band = (case price_limit w (calls s2) of
                         Some (buy_lmt, sell_lmt) \<Rightarrow> (p_prec c buy_lmt, p_prec c sell_lmt)
                       | None \<Rightarrow>
                           (p_prec c (p_prec c fallback_price * (102 / 100)),
                            p_prec c (p_prec c fallback_price * (98 / 100))))
           in (band, s2\<lparr>band_cache := Some band, band_ts := now\<rparr>)))"

text \<open>
  \<^verbatim>\<open>safe_place(side, price, qty)\<close>: the order dict's \<^verbatim>\<open>id\<close> when the order was placed,
  \<open>None\<close> for the method's \<^verbatim>\<open>None\<close>. The sleeps are not modelled.
\<close>

definition safe_place ::
  "config \<Rightarrow> world \<Rightarrow> json \<Rightarrow> real \<Rightarrow> real \<Rightarrow> engine \<Rightarrow> string option \<times> engine" where
  "safe_place c w side price0 qty0 s =
     (let px = p_prec c price0; qty = q_prec c qty0 in
      if px \<in> fst ` set (open_orders s) then (None, s)
      else
        (let (mk, s1) = current_mark_or_mid c w s;
             ((max_buy_band, min_sell_band), s2) = fetch_price_band_cached c w mk s1 in
         if side = BUY \<and> px > max_buy_band then
           (None, s2\<lparr>out := out s2 @ [SkipBuy px max_buy_band]\<rparr>)
         else if side = SELL \<and> px < min_sell_band then
           (None, s2\<lparr>out := out s2 @ [SkipSell px min_sell_band]\<rparr>)
         else
           (let s3 = s2\<lparr>calls := calls s2 @ [CreateOrder ''limit'' side qty (Some px) False]\<rparr> in
            case create_order w (calls s3) of
              Some oid \<Rightarrow>
                (Some oid,
                 s3\<lparr>open_orders := AList.update px oid (open_orders s3),
                    order_meta := AList.update oid
                      \<lparr>m_price = px, m_side = side, m_last_filled = 0\<rparr> (order_meta s3),
                    out := out s3 @ [Placed side px oid]\<rparr>)
            | None \<Rightarrow> (None, s3\<lparr>out := out s3 @ [PlaceErr side px]\<rparr>))))"

text \<open>
  \<^verbatim>\<open>safe_cancel_by_price(price)\<close>. The entry is popped first; \<^verbatim>\<open>if not oid\<close> also catches
  an empty id. A cancel the venue refuses is printed and the local state is cleared all
  the same.
\<close>

definition safe_cancel_by_price :: "config \<Rightarrow> world \<Rightarrow> real \<Rightarrow> engine \<Rightarrow> bool \<times> engine" where
  "safe_cancel_by_price c w price0 s =
     (let p = p_prec c price0;
          s1 = s\<lparr>open_orders := AList.delete p (open_orders s)\<rparr> in
      case map_of (open_orders s) p of
        None \<Rightarrow> (False, s1)
      | Some oid \<Rightarrow>
          if oid = [] then (False, s1)
          else
            (let s2 = s1\<lparr>calls := calls s1 @ [CancelOrder oid]\<rparr>;
                 s3 = (if cancel_order w (calls s2) then s2
                       else s2\<lparr>out := out s2 @ [CancelErr oid]\<rparr>) in
             (True, s3\<lparr>order_meta := AList.delete oid (order_meta s3),
                       out := out s3 @ [Canceled p]\<rparr>)))"

text \<open>\<^verbatim>\<open>cancel_all_open_orders\<close>: the loop over \<^verbatim>\<open>list(self.open_orders.items())\<close>.\<close>

fun cancel_loop :: "world \<Rightarrow> (real \<times> string) list \<Rightarrow> engine \<Rightarrow> engine" where
  "cancel_loop w [] s = s"
| "cancel_loop w ((p, oid) # rest) s =
     (let s1 = s\<lparr>calls := calls s @ [CancelOrder oid]\<rparr>;
          s2 = (if cancel_order w (calls s1) then s1
                else s1\<lparr>out := out s1 @ [CancelErr oid]\<rparr>) in
      cancel_loop w rest
        (s2\<lparr>order_meta := AList.delete oid (order_meta s2),
            open_orders := AList.delete p (open_orders s2)\<rparr>))"

definition cancel_all_open_orders :: "world \<Rightarrow> engine \<Rightarrow> engine" where
  "cancel_all_open_orders w s =
     (let s1 = cancel_loop w (open_orders s) s in s1\<lparr>out := out s1 @ [CanceledAll]\<rparr>)"

text \<open>\<^verbatim>\<open>_place_market(side, qty_contracts)\<close>.\<close>

definition place_market :: "config \<Rightarrow> world \<Rightarrow> json \<Rightarrow> real \<Rightarrow> engine \<Rightarrow> string option \<times> engine" where
  "place_market c w side qty s =
     (let s1 = s\<lparr>calls := calls s @ [CreateOrder ''market'' side (q_prec c qty) None False]\<rparr> in
      case create_order w (calls s1) of
        Some oid \<Rightarrow> (Some oid, s1\<lparr>out := out s1 @ [MarketPlaced side qty oid]\<rparr>)
      | None \<Rightarrow> (None, s1\<lparr>out := out s1 @ [MarketErr side]\<rparr>))"

text \<open>
  \<^verbatim>\<open>handle_post_close(side, price, filled_contracts)\<close>. \<open>replenish\<close> is the method's body
  after the first-fill check.
\<close>

definition replenish :: "config \<Rightarrow> world \<Rightarrow> json \<Rightarrow> real \<Rightarrow> engine \<Rightarrow> engine" where
  "replenish c w side px s =
     (if grid_qty c px \<le> 0 then s
      else if side = BUY then
        (case neighbor_above c px of
           None \<Rightarrow> s
         | Some up \<Rightarrow>
             if grid_qty c up > 0 \<and> up \<notin> fst ` set (open_orders s)
             then snd (safe_place c w SELL up (grid_qty c up) s) else s)
      else
        (case neighbor_below c px of
           None \<Rightarrow> s
         | Some dn \<Rightarrow>
             if grid_qty c dn > 0 \<and> dn \<notin> fst ` set (open_orders s)
             then snd (safe_place c w BUY dn (grid_qty c dn) s) else s))"

definition handle_post_close :: "config \<Rightarrow> world \<Rightarrow> json \<Rightarrow> real \<Rightarrow> real \<Rightarrow> engine \<Rightarrow> engine" where
  "handle_post_close c w side px filled_contracts s =
     (let s1 = s\<lparr>out := out s @ [Closed side px filled_contracts]\<rparr> in
      if first_fill_ignore s1 then
        s1\<lparr>first_fill_ignore := False, out := out s1 @ [FirstFillIgnored]\<rparr>
      else replenish c w side px s1)"

subsection \<open>Commands\<close>

text \<open>
  Python's view of a parsed command: \<^verbatim>\<open>cmd.get(k)\<close> and \<^verbatim>\<open>cmd[k]\<close> on a dict (the last of
  duplicate keys wins in \<^verbatim>\<open>json.loads\<close>), \<^verbatim>\<open>float(v)\<close> and \<^verbatim>\<open>bool(v)\<close>.
\<close>

definition jget :: "(string \<times> json) list \<Rightarrow> string \<Rightarrow> json option" where
  "jget kvs k = map_of (rev kvs) k"

definition py_float :: "config \<Rightarrow> json \<Rightarrow> error + real" where
  "py_float c v =
     (case v of
        JNum r \<Rightarrow> Inr r
      | JBool b \<Rightarrow> Inr (if b then 1 else 0)
      | JStr t \<Rightarrow> (case str_to_float c t of None \<Rightarrow> Inl ValueError | Some r \<Rightarrow> Inr r)
      | _ \<Rightarrow> Inl TypeError)"

definition field_float :: "config \<Rightarrow> (string \<times> json) list \<Rightarrow> string \<Rightarrow> error + real" where
  "field_float c kvs k = (case jget kvs k of None \<Rightarrow> Inl KeyError | Some v \<Rightarrow> py_float c v)"

definition py_bool :: "json \<Rightarrow> bool" where
  "py_bool v =
     (case v of
        JNull \<Rightarrow> False
      | JBool b \<Rightarrow> b
      | JNum r \<Rightarrow> r \<noteq> 0
      | JStr t \<Rightarrow> t \<noteq> []
      | JArr xs \<Rightarrow> xs \<noteq> []
      | JObj kvs \<Rightarrow> kvs \<noteq> [])"

text \<open>
  The \<^verbatim>\<open>place_limit\<close> branch once \<^verbatim>\<open>side\<close>, \<^verbatim>\<open>price\<close>, \<^verbatim>\<open>cts\<close> and \<^verbatim>\<open>ro\<close> are computed: the
  \<^verbatim>\<open>try\<close> block with its own \<^verbatim>\<open>except\<close>.
\<close>

definition cmd_place_limit :: "world \<Rightarrow> json \<Rightarrow> real \<Rightarrow> real \<Rightarrow> bool \<Rightarrow> engine \<Rightarrow> engine" where
  "cmd_place_limit w side px cts ro s =
     (if px \<in> fst ` set (open_orders s) then s\<lparr>out := out s @ [CmdSkipPlaceLimit px]\<rparr>
      else
        (let s1 = s\<lparr>calls := calls s @ [CreateOrder ''limit'' side cts (Some px) (side = SELL \<and> ro)]\<rparr> in
         case create_order w (calls s1) of
           Some oid \<Rightarrow>
             s1\<lparr>open_orders := AList.update px oid (open_orders s1),
                order_meta := AList.update oid
                  \<lparr>m_price = px, m_side = side, m_last_filled = 0\<rparr> (order_meta s1),
                out := out s1 @ [CmdPlaced side px oid]\<rparr>
         | None \<Rightarrow> s1\<lparr>out := out s1 @ [CmdPlaceLimitError]\<rparr>))"

text \<open>The \<^verbatim>\<open>restore_level\<close> branch once \<^verbatim>\<open>p\<close> is computed.\<close>

definition cmd_restore_level :: "config \<Rightarrow> world \<Rightarrow> real \<Rightarrow> engine \<Rightarrow> engine" where
  "cmd_restore_level c w p s =
     (if p \<notin> fst ` set (open_orders s) then
        (if grid_qty c p > 0 then
           (let (mk, s1) = current_mark_or_mid c w s;
                (placed, s2) = safe_place c w (if p < mk then BUY else SELL) p (grid_qty c p) s1 in
            if placed = None then s2\<lparr>out := out s2 @ [CmdRestoreFailed p]\<rparr> else s2)
         else s\<lparr>out := out s @ [CmdRestoreSkippedQty p]\<rparr>)
      else s\<lparr>out := out s @ [CmdRestoreSkippedHasOrder p]\<rparr>)"

text \<open>
  The body of the \<^verbatim>\<open>for ln in lines\<close> loop for a line that parsed. An exception that no
  inner \<^verbatim>\<open>try\<close> catches is returned: \<^verbatim>\<open>AttributeError\<close> for \<^verbatim>\<open>cmd.get\<close> on a document that
  is not an object, \<^verbatim>\<open>KeyError\<close> for a missing field, \<^verbatim>\<open>TypeError\<close> or \<^verbatim>\<open>ValueError\<close> from
  \<^verbatim>\<open>float\<close>.
\<close>

definition process_command :: "config \<Rightarrow> world \<Rightarrow> json \<Rightarrow> engine \<Rightarrow> error option \<times> engine" where
  "process_command c w cmd s =
     (case cmd of
        JObj kvs \<Rightarrow>
          (let op = jget kvs ''op'' in
           if op = Some (JStr ''cancel_all'') then (None, cancel_all_open_orders w s)
           else if op = Some (JStr ''cancel_by_price'') then
             (case field_float c kvs ''price'' of
                Inl e \<Rightarrow> (Some e, s)
              | Inr x \<Rightarrow> (None, snd (safe_cancel_by_price c w (p_prec c x) s)))
           else if op = Some (JStr ''place_limit'') then
             (case jget kvs ''side'' of
                None \<Rightarrow> (Some KeyError, s)
              | Some side \<Rightarrow>
                  (case field_float c kvs ''price'' of
                     Inl e \<Rightarrow> (Some e, s)
                   | Inr x \<Rightarrow>
                       (case field_float c kvs ''contracts'' of
                          Inl e \<Rightarrow> (Some e, s)
                        | Inr cts \<Rightarrow>
                            (None, cmd_place_limit w side (p_prec c x) cts
                               (case jget kvs ''reduceOnly'' of
                                  None \<Rightarrow> side = SELL
                                | Some v \<Rightarrow> py_bool v) s))))
           else if op = Some (JStr ''hold_level'') \<or> op = Some (JStr ''cancel_and_hold'') then
             (case field_float c kvs ''price'' of
                Inl e \<Rightarrow> (Some e, s)
              | Inr x \<Rightarrow>
                  (let s1 = snd (safe_cancel_by_price c w (p_prec c x) s) in
                   (None, s1\<lparr>out := out s1 @
                      [CmdHold (case op of Some (JStr t) \<Rightarrow> t | _ \<Rightarrow> []) (p_prec c x)]\<rparr>)))
           else if op = Some (JStr ''restore_level'') then
             (case field_float c kvs ''price'' of
                Inl e \<Rightarrow> (Some e, s)
              | Inr x \<Rightarrow> (None, cmd_restore_level c w (p_prec c x) s))
           else (None, s))
      | _ \<Rightarrow> (Some AttributeError, s))"

text \<open>
  The loop over the lines read: a line that does not parse is skipped (\<^verbatim>\<open>continue\<close>), an
  exception leaves the loop.
\<close>

fun command_loop :: "config \<Rightarrow> world \<Rightarrow> line list \<Rightarrow> engine \<Rightarrow> error option \<times> engine" where
  "command_loop c w [] s = (None, s)"
| "command_loop c w (None # lns) s = command_loop c w lns s"
| "command_loop c w (Some cmd # lns) s =
     (case process_command c w cmd s of
        (Some e, s') \<Rightarrow> (Some e, s')
      | (None, s') \<Rightarrow> command_loop c w lns s')"

text \<open>
  \<^verbatim>\<open>process_commands\<close>: nothing when the file does not exist; else the file is read and
  truncated, the lines are processed, and the outer \<^verbatim>\<open>except\<close> prints whatever exception
  left the loop.
\<close>

definition process_commands :: "config \<Rightarrow> world \<Rightarrow> engine \<Rightarrow> engine" where
  "process_commands c w s =
     (case commands_file s of
        None \<Rightarrow> s
      | Some lns \<Rightarrow>
          (case command_loop c w lns (s\<lparr>commands_file := Some []\<rparr>) of
             (None, s') \<Rightarrow> s'
           | (Some e, s') \<Rightarrow> s'\<lparr>out := out s' @ [ProcessCommandsError e]\<rparr>))"

subsection \<open>Polling fills\<close>

text \<open>\<^verbatim>\<open>str.lower\<close> on the ASCII letters of an order status.\<close>

definition lower_char :: "char \<Rightarrow> char" where
  "lower_char ch =
     (if 65 \<le> (of_char ch :: nat) \<and> (of_char ch :: nat) \<le> 90
      then char_of ((of_char ch :: nat) + 32) else ch)"

text \<open>
  Step 1 of the loop body: the increment is booked with \<^verbatim>\<open>on_fill\<close>, then
  \<^verbatim>\<open>self.order_meta[oid]['last_filled'] = filled\<close>.
\<close>

definition book_increment ::
  "config \<Rightarrow> string \<Rightarrow> meta \<Rightarrow> real \<Rightarrow> engine \<Rightarrow> error option \<times> engine" where
  "book_increment c oid m filled s =
     (if max 0 (filled - m_last_filled m) > 0 then
        (case on_fill (contract_size c) (fee_rate c) (m_side m) (m_price m)
                (max 0 (filled - m_last_filled m)) s of
           (Some e, s') \<Rightarrow> (Some e, s')
         | (None, s') \<Rightarrow>
             (None, s'\<lparr>order_meta :=
                AList.map_entry oid (\<lambda>m'. m'\<lparr>m_last_filled := filled\<rparr>) (order_meta s')\<rparr>))
      else (None, s))"

text \<open>
  \<^verbatim>\<open>poll_and_handle_fills\<close>: the loop over \<^verbatim>\<open>list(self.order_meta.items())\<close>, taken when the
  method starts. An order whose fetch raises is skipped; a \<^verbatim>\<open>KeyError\<close> of \<^verbatim>\<open>on_fill\<close>
  leaves the method.
\<close>

fun poll_loop :: "config \<Rightarrow> world \<Rightarrow> (string \<times> meta) list \<Rightarrow> engine \<Rightarrow> error option \<times> engine" where
  "poll_loop c w [] s = (None, s)"
| "poll_loop c w ((oid, m) # rest) s =
     (let s1 = s\<lparr>calls := calls s @ [FetchOrder oid]\<rparr> in
      case fetch_order w (calls s1) of
        None \<Rightarrow> poll_loop c w rest s1
      | Some od \<Rightarrow>
          (case book_increment c oid m (o_filled od) s1 of
             (Some e, s2) \<Rightarrow> (Some e, s2)
           | (None, s2) \<Rightarrow>
               if map lower_char (o_status od) = ''closed'' then
                 poll_loop c w rest
                   (handle_post_close c w (m_side m) (m_price m) (o_filled od)
                      (s2\<lparr>open_orders := AList.delete (m_price m) (open_orders s2),
                          order_meta := AList.delete oid (order_meta s2)\<rparr>))
               else poll_loop c w rest s2))"

definition poll_and_handle_fills :: "config \<Rightarrow> world \<Rightarrow> engine \<Rightarrow> error option \<times> engine" where
  "poll_and_handle_fills c w s = poll_loop c w (order_meta s) s"

subsection \<open>Snapshot\<close>

text \<open>
  \<^verbatim>\<open>snapshot_and_dump\<close>: the valuation of the inventory at the current price (the
  average cost divides by \<^verbatim>\<open>total_contracts * contract_size\<close>), the equity sample, the
  document, and its write. The write of the state file is one call to the outside, which
  succeeds or raises \<^verbatim>\<open>OSError\<close>; \<^verbatim>\<open>_atomic_write_json\<close> has a \<^verbatim>\<open>finally\<close> and no
  \<^verbatim>\<open>except\<close>, so the exception leaves the method.
\<close>

definition unrealized :: "config \<Rightarrow> real \<Rightarrow> lot list \<Rightarrow> real" where
  "unrealized c px lots = sum_list (map (\<lambda>l. (px - price l) * (contracts l * contract_size c)) lots)"

definition cost_notional :: "config \<Rightarrow> lot list \<Rightarrow> real" where
  "cost_notional c lots = sum_list (map (\<lambda>l. price l * (contracts l * contract_size c)) lots)"

definition open_list :: "engine \<Rightarrow> (real \<times> string \<times> json) list" where
  "open_list s =
     sort_key fst
       (map (\<lambda>(p, oid). (p, oid, case map_of (order_meta s) oid of
                                   None \<Rightarrow> JStr ''?'' | Some m \<Rightarrow> m_side m))
          (open_orders s))"

definition snapshot_doc :: "config \<Rightarrow> real \<Rightarrow> real \<times> real \<Rightarrow> engine \<Rightarrow> snapshot" where
  "snapshot_doc c px band s =
     \<lparr>d_current_price = px, d_open_orders = open_list s,
      d_inventory_contracts = total_contracts (inventory s),
      d_inventory_avg_cost =
        (if total_contracts (inventory s) > EPS
         then cost_notional c (inventory s) / (total_contracts (inventory s) * contract_size c)
         else 0),
      d_realized_pnl = realized_pnl s,
      d_unrealized_pnl = unrealized c px (inventory s),
      d_equity = realized_pnl s + unrealized c px (inventory s),
      d_price_band = band,
      d_trades = drop (length (trades_log s) - 300) (trades_log s),
      d_equity_series = drop (length (equity_series s) - 2000) (equity_series s)\<rparr>"

definition snapshot_and_dump :: "config \<Rightarrow> world \<Rightarrow> engine \<Rightarrow> error option \<times> engine" where
  "snapshot_and_dump c w s =
     (let (px, s1) = current_mark_or_mid c w s in
      if total_contracts (inventory s1) > EPS \<and> total_contracts (inventory s1) * contract_size c = 0
      then (Some ZeroDivisionError, s1)
      else
        (let s2 = s1\<lparr>equity_series := deque_append 5000 (equity_series s1)
                      \<lparr>e_equity = realized_pnl s1 + unrealized c px (inventory s1),
                       e_realized = realized_pnl s1,
                       e_unrealized = unrealized c px (inventory s1)\<rparr>\<rparr>;
             (band, s3) = fetch_price_band_cached c w px s2;
             s4 = s3\<lparr>calls := calls s3 @ [WriteState (snapshot_doc c px band s3)]\<rparr>
         in if write_state w (calls s4) then (None, s4) else (Some OSError, s4)))"

subsection \<open>Grid initialization and the main loop\<close>

text \<open>The loop of \<^verbatim>\<open>_initialize_full_grid_once\<close> over the levels, summing the sells placed.\<close>

fun init_loop :: "config \<Rightarrow> world \<Rightarrow> real \<Rightarrow> real list \<Rightarrow> real \<Rightarrow> engine \<Rightarrow> real \<times> engine" where
  "init_loop c w px [] sell_total s = (sell_total, s)"
| "init_loop c w px (p # ps) sell_total s =
     (if grid_qty c p \<le> 0 then init_loop c w px ps sell_total s
      else if p > px then
        (case safe_place c w SELL p (grid_qty c p) s of
           (Some oid, s') \<Rightarrow> init_loop c w px ps (sell_total + grid_qty c p) s'
         | (None, s') \<Rightarrow> init_loop c w px ps sell_total s')
      else if p < px then init_loop c w px ps sell_total (snd (safe_place c w BUY p (grid_qty c p) s))
      else init_loop c w px ps sell_total s)"

definition initialize_full_grid_once :: "config \<Rightarrow> world \<Rightarrow> engine \<Rightarrow> engine" where
  "initialize_full_grid_once c w s =
     (if initialized_full s then s
      else
        (let (px, s1) = current_mark_or_mid c w s;
             (sell_total, s2) = init_loop c w px (levels c) 0 s1;
             s3 = (if init_position_enabled c \<and> sell_total > 0
                   then snd (place_market c w BUY sell_total s2) else s2)
         in s3\<lparr>initialized_full := True,
               out := out s3 @ [Initialized (init_position_enabled c) px sell_total]\<rparr>))"

text \<open>
  One pass of the \<^verbatim>\<open>while True\<close> body of \<^verbatim>\<open>run_forever\<close>, \<open>loop_i\<close> already incremented.
  The only \<^verbatim>\<open>except\<close> of \<^verbatim>\<open>run_forever\<close> is for \<^verbatim>\<open>KeyboardInterrupt\<close>: any other exception
  leaves the loop and the method.
\<close>

definition heartbeat :: "int \<Rightarrow> engine \<Rightarrow> msg" where
  "heartbeat loop_i s =
     Heartbeat (nat loop_i)
       (length (filter (\<lambda>(p, oid). map_option m_side (map_of (order_meta s) oid) = Some BUY) (open_orders s)))
       (length (filter (\<lambda>(p, oid). map_option m_side (map_of (order_meta s) oid) = Some SELL) (open_orders s)))
       (total_contracts (inventory s)) (realized_pnl s)"

definition tick :: "config \<Rightarrow> world \<Rightarrow> int \<Rightarrow> int \<Rightarrow> engine \<Rightarrow> error option \<times> engine" where
  "tick c w heartbeat_every loop_i s =
     (let s1 = (if \<not> initialized_full s then initialize_full_grid_once c w s else s);
          s2 = process_commands c w s1 in
      case poll_and_handle_fills c w s2 of
        (Some e, s3) \<Rightarrow> (Some e, s3)
      | (None, s3) \<Rightarrow>
          (case snapshot_and_dump c w s3 of
             (Some e, s4) \<Rightarrow> (Some e, s4)
           | (None, s4) \<Rightarrow>
               (None, if heartbeat_every \<noteq> 0 \<and> loop_i mod heartbeat_every = 0
                      then s4\<lparr>out := out s4 @ [heartbeat loop_i s4]\<rparr> else s4)))"

text \<open>
  What the producers of the command file do between two ticks: they append lines (and
  create the file).
\<close>

definition enqueue :: "line list \<Rightarrow> engine \<Rightarrow> engine" where
  "enqueue lns s =
     (if lns = [] then s
      else s\<lparr>commands_file := Some ((case commands_file s of None \<Rightarrow> [] | Some old \<Rightarrow> old) @ lns)\<rparr>)"

text \<open>
  \<^verbatim>\<open>run_forever\<close>, for as many ticks as the list has entries: the \<open>i\<close>-th entry is what
  the producers appended before tick \<open>i\<close>, and the end of the list is the
  \<^verbatim>\<open>KeyboardInterrupt\<close> that stops the engine. The result \<open>Some e\<close> is the exception that
  ended the loop before that.
\<close>

fun run_loop ::
  "config \<Rightarrow> world \<Rightarrow> int \<Rightarrow> int \<Rightarrow> line list list \<Rightarrow> engine \<Rightarrow> error option \<times> engine" where
  "run_loop c w heartbeat_every loop_i [] s = (None, s\<lparr>out := out s @ [Stopped]\<rparr>)"
| "run_loop c w heartbeat_every loop_i (lns # later) s =
     (case tick c w heartbeat_every (loop_i + 1) (enqueue lns s) of
        (Some e, s') \<Rightarrow> (Some e, s')
      | (None, s') \<Rightarrow> run_loop c w heartbeat_every (loop_i + 1) later s')"

definition run_forever ::
  "config \<Rightarrow> world \<Rightarrow> int \<Rightarrow> line list list \<Rightarrow> engine \<Rightarrow> error option \<times> engine" where
  "run_forever c w heartbeat_every appended s =
     run_loop c w heartbeat_every 0 appended (s\<lparr>out := out s @ [Started]\<rparr>)"

subsection \<open>Sequences of operations\<close>

text \<open>
  The engine's operations, to state what holds after any sequence of them: the four steps
  of a tick, the producers' appends, and the methods the steps are built from, called on
  their own. An exception of a step is dropped and the sequence goes on from the state the
  step left.
\<close>

datatype op =
    Initialize
  | Commands
  | Poll
  | Snapshot
  | Enqueue "line list"
  | SafePlace json real real
  | CancelByPrice real
  | CancelAll
  | PostClose json real real
  | Fill json real real

fun apply_op :: "config \<Rightarrow> world \<Rightarrow> op \<Rightarrow> engine \<Rightarrow> engine" where
  "apply_op c w Initialize s = initialize_full_grid_once c w s"
| "apply_op c w Commands s = process_commands c w s"
| "apply_op c w Poll s = snd (poll_and_handle_fills c w s)"
| "apply_op c w Snapshot s = snd (snapshot_and_dump c w s)"
| "apply_op c w (Enqueue lns) s = enqueue lns s"
| "apply_op c w (SafePlace side px qty) s = snd (safe_place c w side px qty s)"
| "apply_op c w (CancelByPrice px) s = snd (safe_cancel_by_price c w px s)"
| "apply_op c w CancelAll s = cancel_all_open_orders w s"
| "apply_op c w (PostClose side px filled) s = handle_post_close c w side px filled s"
| "apply_op c w (Fill side px cts) s = snd (on_fill (contract_size c) (fee_rate c) side px cts s)"

fun apply_ops :: "config \<Rightarrow> world \<Rightarrow> op list \<Rightarrow> engine \<Rightarrow> engine" where
  "apply_ops c w [] s = s"
| "apply_ops c w (x # xs) s = apply_ops c w xs (apply_op c w x s)"

subsection \<open>A small grid and a quiet venue\<close>

text \<open>
  The grid of three levels 100, 105, 110 with one contract each, prices and quantities
  already on the venue's precision, reference price 105; a venue that accepts every order
  and cancel, reports the mark price 105 and the price limits 120 (buy) and 90 (sell),
  names an order \<^verbatim>\<open>o\<close> followed by as many \<^verbatim>\<open>#\<close> as calls were made, and whose orders cannot be fetched.
  They are the concrete inputs of the examples below.
\<close>

definition example_config :: "bool \<Rightarrow> config" where
  "example_config init_position =
     new_config id id (\<lambda>_. None) 105 1 [100, 105, 110]
       [(100, 1), (105, 1), (110, 1)] (1 / 2000) 8 init_position"

definition example_world :: world where
  "example_world =
     \<lparr>fetch_ticker = (\<lambda>_. Some \<lparr>markPx = Some 105, last_px = None\<rparr>),
      fetch_order_book = (\<lambda>_. None),
      price_limit = (\<lambda>_. Some (120, 90)),
      clock = (\<lambda>h. real (length h)),
      create_order = (\<lambda>h. Some (CHR ''o'' # replicate (length h) CHR ''#'')),
      cancel_order = (\<lambda>_. True),
      fetch_order = (\<lambda>_. None),
      write_state = (\<lambda>_. True)\<rparr>"

subsection \<open>What the statements below speak of\<close>

text \<open>The order requests among the calls made so far, in the order they were sent.\<close>

fun is_create_order :: "call \<Rightarrow> bool" where
  "is_create_order (CreateOrder ty side amount px ro) = True"
| "is_create_order _ = False"

definition created :: "engine \<Rightarrow> call list" where
  "created s = filter is_create_order (calls s)"

text \<open>
  \<open>up\<close> is the smallest configured level strictly greater than \<open>p\<close>; \<open>dn\<close> is the largest
  configured level strictly less than \<open>p\<close>.
\<close>

definition least_level_above :: "config \<Rightarrow> real \<Rightarrow> real \<Rightarrow> bool" where
  "least_level_above c p up \<longleftrightarrow>
     up \<in> set (levels c) \<and> p < up \<and> (\<forall>x\<in>set (levels c). p < x \<longrightarrow> up \<le> x)"

definition greatest_level_below :: "config \<Rightarrow> real \<Rightarrow> real \<Rightarrow> bool" where
  "greatest_level_below c p dn \<longleftrightarrow>
     dn \<in> set (levels c) \<and> dn < p \<and> (\<forall>x\<in>set (levels c). x < p \<longrightarrow> x \<le> dn)"



text \<open>
  The close events handled so far: \<^verbatim>\<open>handle_post_close\<close> prints one \<open>Closed\<close> line when it
  is entered and \<open>FirstFillIgnored\<close> when it ignores the close.
\<close>

fun is_close_event :: "msg \<Rightarrow> bool" where
  "is_close_event (Closed side px filled) = True"
| "is_close_event FirstFillIgnored = True"
| "is_close_event _ = False"

definition close_events :: "engine \<Rightarrow> msg list" where
  "close_events s = filter is_close_event (out s)"

text \<open>
  Every order the engine tracks is the one registered at its price, and no registered
  id is empty.
\<close>

definition registered :: "engine \<Rightarrow> bool" where
  "registered s \<longleftrightarrow>
     (\<forall>(oid, m)\<in>set (order_meta s). map_of (open_orders s) (m_price m) = Some oid)"

definition books_ok :: "engine \<Rightarrow> bool" where
  "books_ok s \<longleftrightarrow>
     distinct (map fst (open_orders s)) \<and> distinct (map fst (order_meta s)) \<and>
     registered s \<and> [] \<notin> snd ` set (open_orders s)"

text \<open>
  The venue never hands out an empty order id (\<^verbatim>\<open>if not oid\<close> in \<^verbatim>\<open>safe_cancel_by_price\<close>
  would take it for no order).
\<close>

definition ids_ok :: "world \<Rightarrow> bool" where
  "ids_ok w \<longleftrightarrow> (\<forall>h. create_order w h \<noteq> Some [])"

text \<open>
  The invariant of the open-order state: no two entries of \<^verbatim>\<open>open_orders\<close> share a price
  and, against a venue whose ids are not empty, the two dicts agree. \<open>pending_ok\<close> is
  what \<^verbatim>\<open>poll_and_handle_fills\<close> keeps for the orders it has yet to look at.
\<close>

definition orders_ok :: "world \<Rightarrow> engine \<Rightarrow> bool" where
  "orders_ok w s \<longleftrightarrow> distinct (map fst (open_orders s)) \<and> (ids_ok w \<longrightarrow> books_ok s)"

definition pending_ok :: "world \<Rightarrow> (string \<times> meta) list \<Rightarrow> engine \<Rightarrow> bool" where
  "pending_ok w todo s \<longleftrightarrow>
     (ids_ok w \<longrightarrow> distinct (map fst todo) \<and>
        (\<forall>(oid, m)\<in>set todo. map_of (open_orders s) (m_price m) = Some oid))"

text \<open>
  The invariant of the first-fill flag, for an engine constructed with \<open>init_position\<close>:
  while the flag is armed the option is on and no close was handled; once it is cleared
  with the option on, the first close event is the only one followed by
  \<open>FirstFillIgnored\<close>; with the option off no close is ever ignored.
\<close>

definition close_trace_ok :: "bool \<Rightarrow> engine \<Rightarrow> bool" where
  "close_trace_ok init_position s \<longleftrightarrow>
     (if first_fill_ignore s then init_position \<and> close_events s = []
      else if init_position then
        (\<exists>side px filled later. close_events s = Closed side px filled # FirstFillIgnored # later \<and>
           FirstFillIgnored \<notin> set later)
      else FirstFillIgnored \<notin> set (close_events s))"

text \<open>Between \<open>s\<close> and \<open>s'\<close> no close was handled and the flag was left alone.\<close>

definition same_closes :: "engine \<Rightarrow> engine \<Rightarrow> bool" where
  "same_closes s s' \<longleftrightarrow>
     first_fill_ignore s' = first_fill_ignore s \<and> close_events s' = close_events s"

text \<open>The same venue, on which every order is found closed with one contract filled.\<close>

definition filling_world :: world where
  "filling_world = example_world\<lparr>fetch_order := (\<lambda>_. Some \<lparr>o_filled = 1, o_status = ''closed''\<rparr>)\<rparr>"

section \<open>The ledger\<close>

lemma EPS_pos: "0 < EPS"
  by (simp add: EPS_def)

lemma sell_loop_stop:
  "\<not> EPS < t \<Longrightarrow> sell_loop cs fr px t lots rp = (lots, rp)"
  by (cases lots) (simp_all add: sell_loop.simps(2))

lemma sell_loop_pop:
  "EPS < t \<Longrightarrow> contracts l - min t (contracts l) \<le> EPS \<Longrightarrow>
   sell_loop cs fr px t (l # rest) rp =
     sell_loop cs fr px (t - min t (contracts l)) rest
       (rp + ((px - price l) * (min t (contracts l) * cs)
              - (fr * px * (min t (contracts l) * cs) + fr * price l * (min t (contracts l) * cs))))"
  by (simp add: sell_loop.simps(2))

lemma sell_loop_keep:
  assumes "EPS < t" and "\<not> contracts l - min t (contracts l) \<le> EPS"
  shows "sell_loop cs fr px t (l # rest) rp =
           (l\<lparr>contracts := contracts l - t\<rparr> # rest,
            rp + ((px - price l) * (t * cs) - (fr * px * (t * cs) + fr * price l * (t * cs))))"
proof -
  from assms EPS_pos have m: "min t (contracts l) = t"
    by (simp add: min_def split: if_splits)
  have "\<not> EPS < t - t" using EPS_pos by simp
  then show ?thesis
    using assms by (simp add: sell_loop.simps(2)[of cs fr px t] m sell_loop_stop)
qed

lemma sell_loop_pos:
  "\<forall>l\<in>set lots. 0 < contracts l \<Longrightarrow> \<forall>l\<in>set (fst (sell_loop cs fr px t lots rp)). 0 < contracts l"
proof (induction lots arbitrary: t rp)
  case Nil
  then show ?case by simp
next
  case (Cons l rest)
  consider (stop) "\<not> EPS < t" | (pop) "EPS < t" "contracts l - min t (contracts l) \<le> EPS"
    | (keep) "EPS < t" "\<not> contracts l - min t (contracts l) \<le> EPS" by blast
  then show ?case
  proof cases
    case stop
    then show ?thesis using Cons.prems by (simp add: sell_loop_stop)
  next
    case pop
    then show ?thesis using Cons by (simp add: sell_loop_pop)
  next
    case keep
    then show ?thesis using Cons.prems EPS_pos by (simp add: sell_loop_keep min_def split: if_splits)
  qed
qed

lemma sell_loop_fifo:
  "\<exists>gone kept. lots = gone @ kept \<and>
     (fst (sell_loop cs fr px t lots rp) = kept \<or>
      (\<exists>l rest c. kept = l # rest \<and> EPS < c \<and> c < contracts l \<and>
         fst (sell_loop cs fr px t lots rp) = l\<lparr>contracts := c\<rparr> # rest))"
proof (induction lots arbitrary: t rp)
  case Nil
  then show ?case by simp
next
  case (Cons l rest)
  consider (stop) "\<not> EPS < t" | (pop) "EPS < t" "contracts l - min t (contracts l) \<le> EPS"
    | (keep) "EPS < t" "\<not> contracts l - min t (contracts l) \<le> EPS" by blast
  then show ?case
  proof cases
    case stop
    then have "fst (sell_loop cs fr px t (l # rest) rp) = l # rest"
      by (simp add: sell_loop_stop)
    then show ?thesis by (intro exI[of _ "[]"] exI[of _ "l # rest"]) simp
  next
    case pop
    let ?t = "t - min t (contracts l)"
    let ?rp = "rp + ((px - price l) * (min t (contracts l) * cs)
              - (fr * px * (min t (contracts l) * cs) + fr * price l * (min t (contracts l) * cs)))"
    from Cons.IH[of ?t ?rp] obtain gone kept where
      g: "rest = gone @ kept" and
      h: "fst (sell_loop cs fr px ?t rest ?rp) = kept \<or>
          (\<exists>l' rest' c. kept = l' # rest' \<and> EPS < c \<and> c < contracts l' \<and>
             fst (sell_loop cs fr px ?t rest ?rp) = l'\<lparr>contracts := c\<rparr> # rest')"
      by blast
    have "l # rest = (l # gone) @ kept" using g by simp
    moreover have "sell_loop cs fr px t (l # rest) rp = sell_loop cs fr px ?t rest ?rp"
      using pop by (rule sell_loop_pop)
    ultimately show ?thesis using h by metis
  next
    case keep
    from keep EPS_pos have "EPS < contracts l - t" "contracts l - t < contracts l"
      by (simp_all add: min_def split: if_splits)
    moreover have "fst (sell_loop cs fr px t (l # rest) rp) = l\<lparr>contracts := contracts l - t\<rparr> # rest"
      using keep by (simp add: sell_loop_keep)
    ultimately show ?thesis
      by (intro exI[of _ "[]"] exI[of _ "l # rest"]) auto
  qed
qed

lemma total_contracts_nonneg:
  "\<forall>l\<in>set lots. 0 < contracts l \<Longrightarrow> 0 \<le> total_contracts lots"
  by (induction lots) (auto simp: total_contracts_def)

lemma last_le_total_contracts:
  "\<forall>l\<in>set lots. 0 < contracts l \<Longrightarrow> lots \<noteq> [] \<Longrightarrow> contracts (last lots) \<le> total_contracts lots"
proof (induction lots)
  case Nil
  then show ?case by simp
next
  case (Cons l rest)
  then show ?case
    using total_contracts_nonneg[of rest] by (cases rest) (auto simp: total_contracts_def)
qed

lemma sell_loop_drain:
  assumes "\<forall>l\<in>set lots. 0 < contracts l" and "total_contracts lots < t"
  shows "fst (sell_loop cs fr px t lots rp) = [] \<longleftrightarrow>
         lots = [] \<or> EPS < t - total_contracts lots + contracts (last lots)"
  using assms
proof (induction lots arbitrary: t rp)
  case Nil
  then show ?case by simp
next
  case (Cons l rest)
  have nn: "0 \<le> total_contracts rest"
    using Cons.prems(1) by (simp add: total_contracts_nonneg)
  have tl: "contracts l < t" "min t (contracts l) = contracts l"
    using Cons.prems(2) nn by (simp_all add: total_contracts_def)
  show ?case
  proof (cases "EPS < t")
    case False
    have "contracts (last (l # rest)) \<le> total_contracts (l # rest)"
      using Cons.prems(1) by (intro last_le_total_contracts) simp_all
    then show ?thesis using False Cons.prems by (simp add: sell_loop_stop)
  next
    case True
    have "sell_loop cs fr px t (l # rest) rp = sell_loop cs fr px (t - contracts l) rest
       (rp + ((px - price l) * (contracts l * cs)
              - (fr * px * (contracts l * cs) + fr * price l * (contracts l * cs))))"
      using sell_loop_pop[OF True, of l cs fr px rest rp] EPS_pos tl by simp
    moreover have "\<forall>l\<in>set rest. 0 < contracts l" "total_contracts rest < t - contracts l"
      using Cons.prems by (simp_all add: total_contracts_def)
    ultimately show ?thesis
      using Cons.IH[of "t - contracts l"] True tl
      by (cases rest) (auto simp: total_contracts_def)
  qed
qed

lemma on_fill_buy:
  "on_fill cs fr BUY px cts g =
     (None, g\<lparr>trades_log := deque_append 5000 (trades_log g) \<lparr>t_side = BUY, t_price = px, t_contracts = cts\<rparr>,
              fills_at := (fills_at g)(px := (Suc (fst (fills_at g px)), snd (fills_at g px))),
              inventory := inventory g @ [\<lparr>contracts = cts, price = px\<rparr>]\<rparr>)"
  by (simp add: on_fill_def Let_def)

lemma on_fill_sell:
  "on_fill cs fr SELL px cts g =
     (None, g\<lparr>trades_log := deque_append 5000 (trades_log g) \<lparr>t_side = SELL, t_price = px, t_contracts = cts\<rparr>,
              fills_at := (fills_at g)(px := (fst (fills_at g px), Suc (snd (fills_at g px)))),
              inventory := fst (sell_loop cs fr px cts (inventory g) (realized_pnl g)),
              realized_pnl := snd (sell_loop cs fr px cts (inventory g) (realized_pnl g))\<rparr>)"
  by (simp add: on_fill_def Let_def)

lemma on_fill_inventory_pos:
  assumes "\<forall>l\<in>set (inventory g). 0 < contracts l" and "0 < cts"
  shows "\<forall>l\<in>set (inventory (snd (on_fill cs fr side px cts g))). 0 < contracts l"
proof -
  consider (b) "side = BUY" | (s) "side = SELL" | (o) "side \<noteq> BUY" "side \<noteq> SELL" by blast
  then show ?thesis
  proof cases
    case b
    then show ?thesis using assms by (simp add: on_fill_buy)
  next
    case s
    then show ?thesis using sell_loop_pos[OF assms(1)] by (simp add: on_fill_sell)
  next
    case o
    then show ?thesis using assms by (simp add: on_fill_def Let_def)
  qed
qed

lemma apply_fills_inventory_pos:
  assumes "\<forall>l\<in>set (inventory g). 0 < contracts l" and "\<forall>f\<in>set fills. 0 < snd (snd f)"
  shows "\<forall>l\<in>set (inventory (snd (apply_fills cs fr fills g))). 0 < contracts l"
  using assms
proof (induction fills arbitrary: g)
  case Nil
  then show ?case by simp
next
  case (Cons f fs)
  obtain side px cts where f: "f = (side, px, cts)" by (cases f)
  obtain r g' where o: "on_fill cs fr side px cts g = (r, g')" by (cases "on_fill cs fr side px cts g")
  have p: "\<forall>l\<in>set (inventory g'). 0 < contracts l"
    using on_fill_inventory_pos[of g cts cs fr side px] Cons.prems o f by simp
  show ?case
  proof (cases r)
    case None
    then show ?thesis using Cons.IH[OF p] Cons.prems(2) o f by simp
  next
    case (Some e)
    then show ?thesis using p o f by simp
  qed
qed


subsection \<open>Claim C3: realized PnL of a round trip\<close>




subsection \<open>Claim C4: the inventory is a FIFO queue of positive lots\<close>

text \<open>
  C4 (as the code has it). Let \<open>g\<close> be the ledger after any sequence of fills with positive
  contracts (the only ones \<^verbatim>\<open>poll_and_handle_fills\<close> passes on), started with no lots.
  Every lot of \<open>g\<close> has positive contracts and the total is not negative. A buy fill
  appends its lot at the tail. A sell fill raises nothing and leaves a suffix of the queue,
  its head possibly reduced to more than \<^verbatim>\<open>1e-12\<close>: lots are consumed oldest first. A sell
  fill of more contracts than the total empties the queue exactly when the queue was empty
  or the unmatched remainder plus the last lot exceeds \<^verbatim>\<open>1e-12\<close>; the remainder is dropped.
\<close>

theorem on_fill_inventory_fifo:
  assumes "inventory g0 = []" and "\<forall>f\<in>set fills. 0 < snd (snd f)"
    and "g = snd (apply_fills cs fr fills g0)"
  shows "(\<forall>l\<in>set (inventory g). 0 < contracts l)
    \<and> 0 \<le> total_contracts (inventory g)
    \<and> inventory (snd (on_fill cs fr BUY px cts g)) = inventory g @ [\<lparr>contracts = cts, price = px\<rparr>]
    \<and> fst (on_fill cs fr SELL px cts g) = None
    \<and> (\<exists>gone kept. inventory g = gone @ kept \<and>
         (inventory (snd (on_fill cs fr SELL px cts g)) = kept \<or>
          (\<exists>l rest c. kept = l # rest \<and> EPS < c \<and> c < contracts l \<and>
             inventory (snd (on_fill cs fr SELL px cts g)) = l\<lparr>contracts := c\<rparr> # rest)))
    \<and> (total_contracts (inventory g) < cts \<longrightarrow>
         (inventory (snd (on_fill cs fr SELL px cts g)) = [] \<longleftrightarrow>
            inventory g = [] \<or> EPS < cts - total_contracts (inventory g) + contracts (last (inventory g))))"
proof -
  have pos: "\<forall>l\<in>set (inventory g). 0 < contracts l"
    unfolding assms(3) using assms(1,2) by (intro apply_fills_inventory_pos) simp_all
  have fifo: "\<exists>gone kept. inventory g = gone @ kept \<and>
         (inventory (snd (on_fill cs fr SELL px cts g)) = kept \<or>
          (\<exists>l rest c. kept = l # rest \<and> EPS < c \<and> c < contracts l \<and>
             inventory (snd (on_fill cs fr SELL px cts g)) = l\<lparr>contracts := c\<rparr> # rest))"
    using sell_loop_fifo[of "inventory g" cs fr px cts "realized_pnl g"] by (simp add: on_fill_sell)
  have drain: "total_contracts (inventory g) < cts \<Longrightarrow>
         (inventory (snd (on_fill cs fr SELL px cts g)) = [] \<longleftrightarrow>
            inventory g = [] \<or> EPS < cts - total_contracts (inventory g) + contracts (last (inventory g)))"
    using sell_loop_drain[OF pos, of cts cs fr px "realized_pnl g"] by (simp add: on_fill_sell)
  show ?thesis
    using pos total_contracts_nonneg[OF pos] fifo drain by (simp add: on_fill_buy on_fill_sell)
qed

theorem on_fill_inventory_fifo_witness:
  "total_contracts (inventory (snd (apply_fills 1 0 [(BUY, 100, 2), (BUY, 101, 3), (SELL, 110, 1)] empty_ledger))) = 4
   \<and> inventory (snd (apply_fills 1 0 [(BUY, 100, 2), (BUY, 101, 3), (SELL, 110, 1)] empty_ledger)) =
       [\<lparr>contracts = 1, price = 100\<rparr>, \<lparr>contracts = 3, price = 101\<rparr>]
   \<and> inventory (snd (on_fill 1 0 SELL 120 10
       (snd (apply_fills 1 0 [(BUY, 100, 2), (BUY, 101, 3), (SELL, 110, 1)] empty_ledger)))) = []"
proof -
  have h: "inventory empty_ledger = []"
    "\<forall>f\<in>set [(BUY, 100, 2), (BUY, 101, 3), (SELL, 110, 1 :: real)]. 0 < snd (snd f)"
    by (simp_all add: empty_ledger_def)
  have e: "EPS < 1" "EPS < 2" by (simp_all add: EPS_def)
  have i: "inventory (snd (apply_fills 1 0 [(BUY, 100, 2), (BUY, 101, 3), (SELL, 110, 1)] empty_ledger)) =
       [\<lparr>contracts = 1, price = 100\<rparr>, \<lparr>contracts = 3, price = 101\<rparr>]"
    using e by (simp add: on_fill_buy on_fill_sell empty_ledger_def sell_loop_keep)
  show ?thesis
    using on_fill_inventory_fifo[OF h refl, of 1 0 120 10] e i
    by (simp add: total_contracts_def)
qed

text \<open>
  The claim's last part fails below the threshold: with one lot of \<^verbatim>\<open>5e-13\<close> contracts, a
  sell fill of \<^verbatim>\<open>1e-12\<close> exceeds the total and leaves the lot where it is. And \<^verbatim>\<open>on_fill\<close>
  itself does not look at the sign of a buy fill (\<^verbatim>\<open>poll_and_handle_fills\<close> only passes
  positive increments): a buy fill of \<open>-1\<close> contracts is kept as a lot.
\<close>

theorem on_fill_overdraw_dust_counterexample:
  "total_contracts (inventory (snd (apply_fills 1 0 [(BUY, 100, EPS / 2)] empty_ledger))) < EPS
   \<and> inventory (snd (on_fill 1 0 SELL 110 EPS (snd (apply_fills 1 0 [(BUY, 100, EPS / 2)] empty_ledger)))) \<noteq> []
   \<and> inventory (snd (on_fill 1 0 BUY 100 (- 1) empty_ledger)) = [\<lparr>contracts = - 1, price = 100\<rparr>]"
  using EPS_pos
  by (simp add: on_fill_buy on_fill_sell empty_ledger_def sell_loop_stop total_contracts_def)

section \<open>The example grid\<close>

lemma example_config_simps:
  "levels (example_config ip) = [100, 105, 110]"
  "GRID_QTY_BY_LEVEL (example_config ip) = [(100, 1), (105, 1), (110, 1)]"
  "p_prec (example_config ip) = id" "q_prec (example_config ip) = id"
  "entry_price (example_config ip) = 105" "contract_size (example_config ip) = 1"
  "fee_rate (example_config ip) = 1 / 2000" "band_ttl (example_config ip) = 8"
  "init_position_enabled (example_config ip) = ip"
  "str_to_float (example_config ip) = (\<lambda>_. None)"
  by (simp_all add: example_config_def new_config_def)

lemma example_world_simps:
  "fetch_ticker example_world h = Some \<lparr>markPx = Some 105, last_px = None\<rparr>"
  "fetch_order_book example_world h = None"
  "price_limit example_world h = Some (120, 90)"
  "clock example_world h = real (length h)"
  "create_order example_world h = Some (CHR ''o'' # replicate (length h) CHR ''#'')"
  "cancel_order example_world h = True"
  "fetch_order example_world h = None"
  "write_state example_world h = True"
  by (simp_all add: example_world_def)

section \<open>How the placing methods leave the state\<close>

lemma mid_or_last_state:
  obtains r where "mid_or_last c w tk s = (r, s\<lparr>calls := calls s @ [FetchOrderBook]\<rparr>)"
proof (cases "fetch_order_book w (calls s @ [FetchOrderBook])")
  case None
  then show ?thesis using that by (simp add: mid_or_last_def Let_def)
next
  case (Some ob)
  then show ?thesis using that by (cases ob) (auto simp: mid_or_last_def Let_def)
qed

lemma current_mark_or_mid_state:
  obtains r cs where "current_mark_or_mid c w s = (r, s\<lparr>calls := calls s @ cs\<rparr>)"
    and "filter is_create_order cs = []"
proof -
  have "\<exists>r cs. current_mark_or_mid c w s = (r, s\<lparr>calls := calls s @ cs\<rparr>) \<and> filter is_create_order cs = []"
  proof (cases "fetch_ticker w (calls s @ [FetchTicker])")
    case None
    then have "current_mark_or_mid c w s = (entry_price c, s\<lparr>calls := calls s @ [FetchTicker]\<rparr>)"
      by (simp add: current_mark_or_mid_def Let_def)
    then show ?thesis by (intro exI[of _ "entry_price c"] exI[of _ "[FetchTicker]"]) simp
  next
    case (Some tk)
    obtain r where m: "mid_or_last c w tk (s\<lparr>calls := calls s @ [FetchTicker]\<rparr>) =
        (r, s\<lparr>calls := calls s @ [FetchTicker, FetchOrderBook]\<rparr>)"
      using mid_or_last_state[of c w tk "s\<lparr>calls := calls s @ [FetchTicker]\<rparr>"] by auto
    have "current_mark_or_mid c w s = (r, s\<lparr>calls := calls s @ [FetchTicker, FetchOrderBook]\<rparr>)
        \<or> (\<exists>m. current_mark_or_mid c w s = (p_prec c m, s\<lparr>calls := calls s @ [FetchTicker]\<rparr>))"
      using Some m by (auto simp: current_mark_or_mid_def Let_def split: option.splits)
    then show ?thesis
    proof
      assume "current_mark_or_mid c w s = (r, s\<lparr>calls := calls s @ [FetchTicker, FetchOrderBook]\<rparr>)"
      then show ?thesis by (intro exI[of _ r] exI[of _ "[FetchTicker, FetchOrderBook]"]) simp
    next
      assume "\<exists>m. current_mark_or_mid c w s = (p_prec c m, s\<lparr>calls := calls s @ [FetchTicker]\<rparr>)"
      then obtain m where "current_mark_or_mid c w s = (p_prec c m, s\<lparr>calls := calls s @ [FetchTicker]\<rparr>)" ..
      then show ?thesis by (intro exI[of _ "p_prec c m"] exI[of _ "[FetchTicker]"]) simp
    qed
  qed
  then show ?thesis using that by blast
qed

lemma fetch_price_band_cached_state:
  obtains band cs b t where
    "fetch_price_band_cached c w fb s = (band, s\<lparr>calls := calls s @ cs, band_cache := b, band_ts := t\<rparr>)"
    and "filter is_create_order cs = []"
proof -
  let ?now = "clock w (calls s @ [Clock])"
  let ?s1 = "s\<lparr>calls := calls s @ [Clock]\<rparr>"
  have "\<exists>band cs b t. fetch_price_band_cached c w fb s =
      (band, s\<lparr>calls := calls s @ cs, band_cache := b, band_ts := t\<rparr>) \<and> filter is_create_order cs = []"
  proof (cases "cached_band c ?now ?s1")
    case (Some band)
    then have "fetch_price_band_cached c w fb s = (band, ?s1)"
      by (simp add: fetch_price_band_cached_def Let_def)
    moreover have "?s1 = s\<lparr>calls := calls s @ [Clock], band_cache := band_cache s, band_ts := band_ts s\<rparr>"
      by simp
    ultimately show ?thesis
      by (intro exI[of _ band] exI[of _ "[Clock]"] exI[of _ "band_cache s"] exI[of _ "band_ts s"]) simp
  next
    case None
    then have "\<exists>band. fetch_price_band_cached c w fb s =
        (band, s\<lparr>calls := calls s @ [Clock, PriceLimit], band_cache := Some band, band_ts := ?now\<rparr>)"
      by (simp add: fetch_price_band_cached_def Let_def)
    then obtain band where "fetch_price_band_cached c w fb s =
        (band, s\<lparr>calls := calls s @ [Clock, PriceLimit], band_cache := Some band, band_ts := ?now\<rparr>)" ..
    then show ?thesis
      by (intro exI[of _ band] exI[of _ "[Clock, PriceLimit]"] exI[of _ "Some band"] exI[of _ ?now]) simp
  qed
  then show ?thesis using that by blast
qed

text \<open>The four ways \<open>safe_place\<close> can end.\<close>

lemma safe_place_cases:
  obtains
    (dup) "p_prec c px \<in> fst ` set (open_orders s)" "safe_place c w side px qty s = (None, s)"
  | (skip) cs b t m where "p_prec c px \<notin> fst ` set (open_orders s)" "filter is_create_order cs = []"
      "\<not> is_close_event m"
      "safe_place c w side px qty s =
         (None, s\<lparr>calls := calls s @ cs, band_cache := b, band_ts := t, out := out s @ [m]\<rparr>)"
  | (refused) cs b t m where "p_prec c px \<notin> fst ` set (open_orders s)" "filter is_create_order cs = []"
      "\<not> is_close_event m"
      "safe_place c w side px qty s =
         (None, s\<lparr>calls := calls s @ cs @ [CreateOrder ''limit'' side (q_prec c qty) (Some (p_prec c px)) False],
                   band_cache := b, band_ts := t, out := out s @ [m]\<rparr>)"
  | (placed) cs b t m oid where "p_prec c px \<notin> fst ` set (open_orders s)" "filter is_create_order cs = []"
      "\<not> is_close_event m"
      "create_order w (calls s @ cs @ [CreateOrder ''limit'' side (q_prec c qty) (Some (p_prec c px)) False]) = Some oid"
      "safe_place c w side px qty s =
         (Some oid, s\<lparr>calls := calls s @ cs @ [CreateOrder ''limit'' side (q_prec c qty) (Some (p_prec c px)) False],
                   band_cache := b, band_ts := t,
                   open_orders := AList.update (p_prec c px) oid (open_orders s),
                   order_meta := AList.update oid \<lparr>m_price = p_prec c px, m_side = side, m_last_filled = 0\<rparr> (order_meta s),
                   out := out s @ [m]\<rparr>)"
proof (cases "p_prec c px \<in> fst ` set (open_orders s)")
  case True
  then have "safe_place c w side px qty s = (None, s)" by (simp add: safe_place_def)
  with True show ?thesis by (rule dup)
next
  case False
  obtain mk cs1 where a: "current_mark_or_mid c w s = (mk, s\<lparr>calls := calls s @ cs1\<rparr>)"
    and a': "filter is_create_order cs1 = []" by (rule current_mark_or_mid_state)
  let ?s1 = "s\<lparr>calls := calls s @ cs1\<rparr>"
  obtain band cs2 b t where
    f: "fetch_price_band_cached c w mk ?s1 = (band, ?s1\<lparr>calls := calls ?s1 @ cs2, band_cache := b, band_ts := t\<rparr>)"
    and f': "filter is_create_order cs2 = []" by (rule fetch_price_band_cached_state)
  let ?cs = "cs1 @ cs2"
  have cs: "filter is_create_order ?cs = []" using a' f' by simp
  let ?req = "CreateOrder ''limit'' side (q_prec c qty) (Some (p_prec c px)) False"
  obtain mb ms where band: "band = (mb, ms)" by (cases band)
  have sp: "safe_place c w side px qty s =
      (if side = BUY \<and> p_prec c px > mb then
         (None, s\<lparr>calls := calls s @ ?cs, band_cache := b, band_ts := t, out := out s @ [SkipBuy (p_prec c px) mb]\<rparr>)
       else if side = SELL \<and> p_prec c px < ms then
         (None, s\<lparr>calls := calls s @ ?cs, band_cache := b, band_ts := t, out := out s @ [SkipSell (p_prec c px) ms]\<rparr>)
       else
         (case create_order w (calls s @ ?cs @ [?req]) of
            Some oid \<Rightarrow>
              (Some oid, s\<lparr>calls := calls s @ ?cs @ [?req], band_cache := b, band_ts := t,
                   open_orders := AList.update (p_prec c px) oid (open_orders s),
                   order_meta := AList.update oid \<lparr>m_price = p_prec c px, m_side = side, m_last_filled = 0\<rparr> (order_meta s),
                   out := out s @ [Placed side (p_prec c px) oid]\<rparr>)
          | None \<Rightarrow> (None, s\<lparr>calls := calls s @ ?cs @ [?req], band_cache := b, band_ts := t,
                   out := out s @ [PlaceErr side (p_prec c px)]\<rparr>)))"
    using False a f band by (simp add: safe_place_def Let_def split: option.splits)
  consider (b) "side = BUY \<and> p_prec c px > mb"
    | (s) "\<not> (side = BUY \<and> p_prec c px > mb)" "side = SELL \<and> p_prec c px < ms"
    | (go) "\<not> (side = BUY \<and> p_prec c px > mb)" "\<not> (side = SELL \<and> p_prec c px < ms)" by blast
  then show ?thesis
  proof cases
    case b
    have "safe_place c w side px qty s =
         (None, s\<lparr>calls := calls s @ ?cs, band_cache := b, band_ts := t, out := out s @ [SkipBuy (p_prec c px) mb]\<rparr>)"
      unfolding sp using b by simp
    then show ?thesis using skip[OF False cs, of "SkipBuy (p_prec c px) mb"] by simp
  next
    case s
    have "safe_place c w side px qty s =
         (None, s\<lparr>calls := calls s @ ?cs, band_cache := b, band_ts := t, out := out s @ [SkipSell (p_prec c px) ms]\<rparr>)"
      unfolding sp using s by simp
    then show ?thesis using skip[OF False cs, of "SkipSell (p_prec c px) ms"] by simp
  next
    case go
    show ?thesis
    proof (cases "create_order w (calls s @ ?cs @ [?req])")
      case None
      have "safe_place c w side px qty s =
         (None, s\<lparr>calls := calls s @ ?cs @ [?req], band_cache := b, band_ts := t,
                   out := out s @ [PlaceErr side (p_prec c px)]\<rparr>)"
        unfolding sp if_not_P[OF go(1)] if_not_P[OF go(2)] None by simp
      then show ?thesis using refused[OF False cs, of "PlaceErr side (p_prec c px)"] by simp
    next
      case (Some oid)
      have "safe_place c w side px qty s =
         (Some oid, s\<lparr>calls := calls s @ ?cs @ [?req], band_cache := b, band_ts := t,
                   open_orders := AList.update (p_prec c px) oid (open_orders s),
                   order_meta := AList.update oid \<lparr>m_price = p_prec c px, m_side = side, m_last_filled = 0\<rparr> (order_meta s),
                   out := out s @ [Placed side (p_prec c px) oid]\<rparr>)"
        unfolding sp if_not_P[OF go(1)] if_not_P[OF go(2)] Some by simp
      then show ?thesis using placed[OF False cs _ Some, of "Placed side (p_prec c px) oid"] by simp
    qed
  qed
qed

lemma process_command_place_limit:
  assumes "jget kvs ''op'' = Some (JStr ''place_limit'')" and "jget kvs ''side'' = Some side"
    and "field_float c kvs ''price'' = Inr x" and "field_float c kvs ''contracts'' = Inr cts"
  shows "process_command c w (JObj kvs) s =
           (None, cmd_place_limit w side (p_prec c x) cts
              (case jget kvs ''reduceOnly'' of None \<Rightarrow> side = SELL | Some v \<Rightarrow> py_bool v) s)"
  using assms by (simp add: process_command_def)

section \<open>Replenishment\<close>




lemma neighbor_above_None:
  "neighbor_above c p = None \<Longrightarrow> \<not> (\<exists>up. least_level_above c p up)"
  by (auto simp: neighbor_above_def least_level_above_def filter_empty_conv split: list.splits)




lemma neighbor_below_None:
  "neighbor_below c p = None \<Longrightarrow> \<not> (\<exists>dn. greatest_level_below c p dn)"
  by (auto simp: neighbor_below_def greatest_level_below_def Let_def filter_empty_conv split: if_splits)


lemma created_calls_append:
  "created (s\<lparr>calls := calls s @ cs\<rparr>) = created s @ filter is_create_order cs"
  by (simp add: created_def)









subsection \<open>Claim C2: replenishment places at most the neighbouring order\<close>



subsection \<open>Claim C10: the reduce-only default of a place-limit command\<close>

text \<open>
  C10 (as the code has it). For a \<^verbatim>\<open>place_limit\<close> command with a side, a price and a
  number of contracts, at a price with no open order: the order is sent to the venue with
  \<^verbatim>\<open>reduceOnly\<close> set exactly when the side is \<^verbatim>\<open>sell\<close> and either the command has no
  \<^verbatim>\<open>reduceOnly\<close> field or the field's value is true for Python. So the default is true
  for a sell and false for a buy, an explicit value is honoured for a sell, and a buy is
  never sent reduce-only.
\<close>

theorem place_limit_reduce_only:
  assumes "jget kvs ''op'' = Some (JStr ''place_limit'')" and "jget kvs ''side'' = Some side"
    and "field_float c kvs ''price'' = Inr x" and "field_float c kvs ''contracts'' = Inr cts"
    and "p_prec c x \<notin> fst ` set (open_orders s)"
  shows "(jget kvs ''reduceOnly'' = None \<longrightarrow>
            calls (snd (process_command c w (JObj kvs) s)) =
              calls s @ [CreateOrder ''limit'' side cts (Some (p_prec c x)) (side = SELL)])
       \<and> (\<forall>v. jget kvs ''reduceOnly'' = Some v \<longrightarrow>
            calls (snd (process_command c w (JObj kvs) s)) =
              calls s @ [CreateOrder ''limit'' side cts (Some (p_prec c x)) (side = SELL \<and> py_bool v)])"
  using assms(5) unfolding process_command_place_limit[OF assms(1-4)]
  by (auto simp: cmd_place_limit_def Let_def split: option.splits)

theorem place_limit_reduce_only_witness:
  "calls (snd (process_command (example_config False) example_world
      (JObj [(''op'', JStr ''place_limit''), (''side'', SELL), (''price'', JNum 110),
             (''contracts'', JNum 1)]) (new_engine False))) =
     [CreateOrder ''limit'' SELL 1 (Some 110) True]
   \<and> calls (snd (process_command (example_config False) example_world
      (JObj [(''op'', JStr ''place_limit''), (''side'', BUY), (''price'', JNum 100),
             (''contracts'', JNum 1)]) (new_engine False))) =
     [CreateOrder ''limit'' BUY 1 (Some 100) False]
   \<and> calls (snd (process_command (example_config False) example_world
      (JObj [(''op'', JStr ''place_limit''), (''side'', SELL), (''price'', JNum 110),
             (''contracts'', JNum 1), (''reduceOnly'', JBool False)]) (new_engine False))) =
     [CreateOrder ''limit'' SELL 1 (Some 110) False]"
proof -
  let ?c = "example_config False"
  let ?a = "[(''op'', JStr ''place_limit''), (''side'', SELL), (''price'', JNum 110), (''contracts'', JNum 1)]"
  let ?b = "[(''op'', JStr ''place_limit''), (''side'', BUY), (''price'', JNum 100), (''contracts'', JNum 1)]"
  let ?d = "[(''op'', JStr ''place_limit''), (''side'', SELL), (''price'', JNum 110),
             (''contracts'', JNum 1), (''reduceOnly'', JBool False)]"
  have a: "jget ?a ''op'' = Some (JStr ''place_limit'')" "jget ?a ''side'' = Some SELL"
    "field_float ?c ?a ''price'' = Inr 110" "field_float ?c ?a ''contracts'' = Inr 1"
    "p_prec ?c 110 \<notin> fst ` set (open_orders (new_engine False))" "jget ?a ''reduceOnly'' = None"
    by (simp_all add: jget_def field_float_def py_float_def new_engine_def)
  have b: "jget ?b ''op'' = Some (JStr ''place_limit'')" "jget ?b ''side'' = Some BUY"
    "field_float ?c ?b ''price'' = Inr 100" "field_float ?c ?b ''contracts'' = Inr 1"
    "p_prec ?c 100 \<notin> fst ` set (open_orders (new_engine False))" "jget ?b ''reduceOnly'' = None"
    by (simp_all add: jget_def field_float_def py_float_def new_engine_def)
  have d: "jget ?d ''op'' = Some (JStr ''place_limit'')" "jget ?d ''side'' = Some SELL"
    "field_float ?c ?d ''price'' = Inr 110" "field_float ?c ?d ''contracts'' = Inr 1"
    "p_prec ?c 110 \<notin> fst ` set (open_orders (new_engine False))"
    "jget ?d ''reduceOnly'' = Some (JBool False)"
    by (simp_all add: jget_def field_float_def py_float_def new_engine_def)
  show ?thesis
    using place_limit_reduce_only[OF a(1-5), of example_world]
      place_limit_reduce_only[OF b(1-5), of example_world]
      place_limit_reduce_only[OF d(1-5), of example_world] a(6) b(6) d(6)
    by (simp add: example_config_simps py_bool_def new_engine_def)
qed

text \<open>
  The claim's last part fails for a buy: with an explicit \<^verbatim>\<open>"reduceOnly": true\<close> the order is
  sent without the flag, because \<^verbatim>\<open>params['reduceOnly']\<close> is only set under
  \<^verbatim>\<open>side == 'sell' and ro\<close>.
\<close>

theorem place_limit_reduce_only_buy_counterexample:
  "calls (snd (process_command (example_config False) example_world
      (JObj [(''op'', JStr ''place_limit''), (''side'', BUY), (''price'', JNum 100),
             (''contracts'', JNum 1), (''reduceOnly'', JBool True)]) (new_engine False))) =
     [CreateOrder ''limit'' BUY 1 (Some 100) False]"
  by (simp add: process_command_def jget_def field_float_def py_float_def py_bool_def
      cmd_place_limit_def example_config_simps new_engine_def example_world_simps Let_def)

section \<open>The invariant of the open-order state\<close>

lemma orders_ok_frame:
  assumes "orders_ok w s" and "open_orders s' = open_orders s" and "order_meta s' = order_meta s"
  shows "orders_ok w s'"
  using assms(1) unfolding orders_ok_def books_ok_def registered_def assms(2,3) .

lemma pending_ok_frame:
  assumes "pending_ok w todo s" and "open_orders s' = open_orders s"
  shows "pending_ok w todo s'"
  using assms(1) unfolding pending_ok_def assms(2) .

lemma set_update_subset:
  "set (AList.update k v al) \<subseteq> insert (k, v) (set al)"
  by (induction al) auto

lemma map_of_Some_key: "map_of al k = Some v \<Longrightarrow> k \<in> fst ` set al"
  by (metis map_of_eq_None_iff option.distinct(1))

lemma set_delete: "set (AList.delete k al) = {x \<in> set al. fst x \<noteq> k}"
  by (induction al) auto

lemma registeredI:
  "(\<And>oid m. (oid, m) \<in> set (order_meta s) \<Longrightarrow> map_of (open_orders s) (m_price m) = Some oid) \<Longrightarrow>
   registered s"
  unfolding registered_def by (intro ballI) (simp add: case_prod_beta)

lemma registeredD:
  "registered s \<Longrightarrow> (oid, m) \<in> set (order_meta s) \<Longrightarrow> map_of (open_orders s) (m_price m) = Some oid"
  unfolding registered_def by (drule bspec[where x = "(oid, m)"]) simp_all

lemma books_okI:
  "distinct (map fst (open_orders s)) \<Longrightarrow> distinct (map fst (order_meta s)) \<Longrightarrow> registered s \<Longrightarrow>
   [] \<notin> snd ` set (open_orders s) \<Longrightarrow> books_ok s"
  by (simp add: books_ok_def)

lemma books_okD:
  assumes "books_ok s"
  shows "distinct (map fst (open_orders s))" "distinct (map fst (order_meta s))" "registered s"
    "[] \<notin> snd ` set (open_orders s)"
  using assms by (simp_all add: books_ok_def)

lemma orders_ok_place:
  assumes "orders_ok w s" and "px \<notin> fst ` set (open_orders s)"
    and "ids_ok w \<longrightarrow> oid \<noteq> []" and "m_price m = px"
    and "open_orders s' = AList.update px oid (open_orders s)"
    and "order_meta s' = AList.update oid m (order_meta s)"
  shows "orders_ok w s'"
proof -
  have d: "distinct (map fst (open_orders s'))"
    using assms(1) unfolding assms(5) orders_ok_def by (simp add: distinct_update)
  have "books_ok s'" if i: "ids_ok w"
  proof -
    from assms(1) i have b: "books_ok s" by (simp add: orders_ok_def)
    have r: "map_of (open_orders s') (m_price m') = Some o'" if "(o', m') \<in> set (order_meta s')" for o' m'
    proof -
      from that set_update_subset[of oid m "order_meta s"]
      consider "(o', m') = (oid, m)" | "(o', m') \<in> set (order_meta s)"
        unfolding assms(6) by auto
      then show ?thesis
      proof cases
        case 1
        then show ?thesis unfolding assms(5) using assms(4) by (simp add: update_conv')
      next
        case 2
        with b have k: "map_of (open_orders s) (m_price m') = Some o'"
          by (intro registeredD books_okD(3))
        from map_of_Some_key[OF k] assms(2) have "m_price m' \<noteq> px" by blast
        with k show ?thesis unfolding assms(5) by (simp add: update_conv')
      qed
    qed
    have "snd ` set (open_orders s') \<subseteq> insert oid (snd ` set (open_orders s))"
      unfolding assms(5) using set_update_subset[of px oid "open_orders s"] by force
    then have e: "[] \<notin> snd ` set (open_orders s')"
      using books_okD(4)[OF b] assms(3) i by blast
    have "distinct (map fst (order_meta s'))"
      unfolding assms(6) using books_okD(2)[OF b] by (simp add: distinct_update)
    then show ?thesis using d e by (intro books_okI registeredI r)
  qed
  with d show ?thesis by (simp add: orders_ok_def)
qed

lemma orders_ok_remove:
  assumes "orders_ok w s" and "ids_ok w \<longrightarrow> map_of (open_orders s) p = Some oid"
    and "open_orders s' = AList.delete p (open_orders s)"
    and "order_meta s' = AList.delete oid (order_meta s)"
  shows "orders_ok w s'"
proof -
  have d: "distinct (map fst (open_orders s'))"
    using assms(1) unfolding assms(3) orders_ok_def by (simp add: distinct_delete)
  have "books_ok s'" if i: "ids_ok w"
  proof -
    from assms(1) i have b: "books_ok s" by (simp add: orders_ok_def)
    from assms(2) i have reg: "map_of (open_orders s) p = Some oid" by simp
    have r: "map_of (open_orders s') (m_price m') = Some o'" if "(o', m') \<in> set (order_meta s')" for o' m'
    proof -
      from that have "(o', m') \<in> set (order_meta s)" "o' \<noteq> oid"
        unfolding assms(4) by (auto simp: set_delete)
      with b have k: "map_of (open_orders s) (m_price m') = Some o'"
        by (intro registeredD books_okD(3))
      have "m_price m' \<noteq> p"
      proof
        assume "m_price m' = p"
        with k reg have "Some o' = Some oid" by simp
        with \<open>o' \<noteq> oid\<close> show False by simp
      qed
      with k show ?thesis unfolding assms(3) by simp
    qed
    have "set (open_orders s') \<subseteq> set (open_orders s)"
      unfolding assms(3) by (simp add: set_delete)
    then have e: "[] \<notin> snd ` set (open_orders s')"
      using books_okD(4)[OF b] by blast
    have "distinct (map fst (order_meta s'))"
      unfolding assms(4) using books_okD(2)[OF b] by (simp add: distinct_delete)
    then show ?thesis using d e by (intro books_okI registeredI r)
  qed
  with d show ?thesis by (simp add: orders_ok_def)
qed

lemma orders_ok_remove_absent:
  assumes "orders_ok w s" and "ids_ok w \<longrightarrow> map_of (open_orders s) p = None"
    and "open_orders s' = AList.delete p (open_orders s)"
    and "order_meta s' = order_meta s"
  shows "orders_ok w s'"
proof -
  have d: "distinct (map fst (open_orders s'))"
    using assms(1) unfolding assms(3) orders_ok_def by (simp add: distinct_delete)
  have "books_ok s'" if i: "ids_ok w"
  proof -
    from assms(1) i have b: "books_ok s" by (simp add: orders_ok_def)
    from assms(2) i have reg: "map_of (open_orders s) p = None" by simp
    have r: "map_of (open_orders s') (m_price m') = Some o'" if "(o', m') \<in> set (order_meta s')" for o' m'
    proof -
      from that b have k: "map_of (open_orders s) (m_price m') = Some o'"
        unfolding assms(4) by (intro registeredD books_okD(3))
      have "m_price m' \<noteq> p"
      proof
        assume "m_price m' = p"
        with k reg show False by simp
      qed
      with k show ?thesis unfolding assms(3) by simp
    qed
    have "set (open_orders s') \<subseteq> set (open_orders s)"
      unfolding assms(3) by (simp add: set_delete)
    then have e: "[] \<notin> snd ` set (open_orders s')"
      using books_okD(4)[OF b] by blast
    have "distinct (map fst (order_meta s'))"
      unfolding assms(4) using books_okD(2)[OF b] .
    then show ?thesis using d e by (intro books_okI registeredI r)
  qed
  with d show ?thesis by (simp add: orders_ok_def)
qed

lemma orders_ok_last_filled:
  assumes "orders_ok w s" and "open_orders s' = open_orders s"
    and "order_meta s' = AList.map_entry oid (\<lambda>m. m\<lparr>m_last_filled := x\<rparr>) (order_meta s)"
  shows "orders_ok w s'"
proof -
  have sub: "(o', m') \<in> set (AList.map_entry oid (\<lambda>m. m\<lparr>m_last_filled := x\<rparr>) al) \<Longrightarrow>
      \<exists>m. (o', m) \<in> set al \<and> m_price m = m_price m'" for o' m' and al :: "(string \<times> meta) list"
    by (induction al) (auto split: if_splits)
  have "books_ok s'" if i: "ids_ok w"
  proof -
    from assms(1) i have b: "books_ok s" by (simp add: orders_ok_def)
    have "map_of (open_orders s') (m_price m') = Some o'" if "(o', m') \<in> set (order_meta s')" for o' m'
    proof -
      from sub that obtain m where "(o', m) \<in> set (order_meta s)" "m_price m = m_price m'"
        unfolding assms(3) by blast
      with registeredD[OF books_okD(3)[OF b], of o' m] show ?thesis unfolding assms(2) by simp
    qed
    then have "registered s'" by (rule registeredI)
    moreover have "distinct (map fst (order_meta s'))"
      unfolding assms(3) using books_okD(2)[OF b] by (simp add: distinct_map_entry)
    ultimately show ?thesis
      using books_okD(1,4)[OF b] unfolding assms(2)[symmetric] by (intro books_okI)
  qed
  with assms(1,2) show ?thesis by (simp add: orders_ok_def)
qed

lemma safe_place_orders_ok:
  assumes "orders_ok w s"
  shows "orders_ok w (snd (safe_place c w side px qty s))"
proof (cases rule: safe_place_cases[of c px s w side qty])
  case dup
  then show ?thesis using assms by simp
next
  case (skip cs b t m)
  show ?thesis unfolding skip(4) by (rule orders_ok_frame[OF assms]) simp_all
next
  case (refused cs b t m)
  show ?thesis unfolding refused(4) by (rule orders_ok_frame[OF assms]) simp_all
next
  case (placed cs b t m oid)
  have "ids_ok w \<longrightarrow> oid \<noteq> []" using placed(4) by (auto simp: ids_ok_def)
  from orders_ok_place[OF assms placed(1) this, of "\<lparr>m_price = p_prec c px, m_side = side, m_last_filled = 0\<rparr>"
      "snd (safe_place c w side px qty s)"]
  show ?thesis unfolding placed(5) by simp
qed

lemma safe_place_keeps:
  assumes "map_of (open_orders s) k = Some v"
  shows "map_of (open_orders (snd (safe_place c w side px qty s))) k = Some v"
proof (cases rule: safe_place_cases[of c px s w side qty])
  case dup
  then show ?thesis using assms by simp
next
  case (skip cs b t m)
  then show ?thesis using assms by simp
next
  case (refused cs b t m)
  then show ?thesis using assms by simp
next
  case (placed cs b t m oid)
  from assms have "k \<in> fst ` set (open_orders s)" by (rule map_of_Some_key)
  with placed(1) have "k \<noteq> p_prec c px" by blast
  then show ?thesis unfolding placed(5) using assms by (simp add: update_conv')
qed

lemma replenish_cases:
  obtains (same) "replenish c w side px s = s"
  | (place) sd lv where "replenish c w side px s = snd (safe_place c w sd lv (grid_qty c lv) s)"
proof (cases "replenish c w side px s = s")
  case True
  then show ?thesis by (rule same)
next
  case False
  then have "(\<exists>up. replenish c w side px s = snd (safe_place c w SELL up (grid_qty c up) s)) \<or>
      (\<exists>dn. replenish c w side px s = snd (safe_place c w BUY dn (grid_qty c dn) s))"
    by (auto simp: replenish_def split: if_splits option.splits)
  then show ?thesis using place by blast
qed

lemma replenish_orders_ok:
  "orders_ok w s \<Longrightarrow> orders_ok w (replenish c w side px s)"
  by (cases rule: replenish_cases[of c w side px s]) (simp_all add: safe_place_orders_ok)

lemma replenish_keeps:
  "map_of (open_orders s) k = Some v \<Longrightarrow> map_of (open_orders (replenish c w side px s)) k = Some v"
  by (cases rule: replenish_cases[of c w side px s]) (simp_all add: safe_place_keeps)

lemma handle_post_close_cases:
  obtains (ignored) "first_fill_ignore s"
      "handle_post_close c w side px filled s =
         s\<lparr>first_fill_ignore := False, out := out s @ [Closed side px filled, FirstFillIgnored]\<rparr>"
  | (normal) "\<not> first_fill_ignore s"
      "handle_post_close c w side px filled s =
         replenish c w side px (s\<lparr>out := out s @ [Closed side px filled]\<rparr>)"
  by (cases "first_fill_ignore s") (simp_all add: handle_post_close_def Let_def)

lemma handle_post_close_orders_ok:
  assumes "orders_ok w s"
  shows "orders_ok w (handle_post_close c w side px filled s)"
proof (cases rule: handle_post_close_cases[of s c w side px filled])
  case ignored
  show ?thesis unfolding ignored(2) by (rule orders_ok_frame[OF assms]) simp_all
next
  case normal
  have "orders_ok w (s\<lparr>out := out s @ [Closed side px filled]\<rparr>)"
    by (rule orders_ok_frame[OF assms]) simp_all
  then show ?thesis unfolding normal(2) by (rule replenish_orders_ok)
qed

lemma handle_post_close_keeps:
  assumes "map_of (open_orders s) k = Some v"
  shows "map_of (open_orders (handle_post_close c w side px filled s)) k = Some v"
proof (cases rule: handle_post_close_cases[of s c w side px filled])
  case ignored
  show ?thesis unfolding ignored(2) using assms by simp
next
  case normal
  show ?thesis unfolding normal(2) using assms by (intro replenish_keeps) simp
qed

lemma books_ok_no_empty_id:
  assumes "books_ok s" and "map_of (open_orders s) p = Some oid"
  shows "oid \<noteq> []"
proof
  assume "oid = []"
  with assms(2) have "(p, []) \<in> set (open_orders s)" by (auto dest: map_of_SomeD)
  then have "[] \<in> snd ` set (open_orders s)" by force
  with books_okD(4)[OF assms(1)] show False by simp
qed

lemma safe_cancel_by_price_orders_ok:
  assumes "orders_ok w s"
  shows "orders_ok w (snd (safe_cancel_by_price c w px s))"
proof (cases "map_of (open_orders s) (p_prec c px)")
  case None
  then have "snd (safe_cancel_by_price c w px s) =
      s\<lparr>open_orders := AList.delete (p_prec c px) (open_orders s)\<rparr>"
    by (simp add: safe_cancel_by_price_def Let_def)
  moreover have "orders_ok w (s\<lparr>open_orders := AList.delete (p_prec c px) (open_orders s)\<rparr>)"
    by (rule orders_ok_remove_absent[OF assms, of "p_prec c px"]) (simp_all add: None)
  ultimately show ?thesis by simp
next
  case (Some oid)
  show ?thesis
  proof (cases "oid = []")
    case True
    with Some have "snd (safe_cancel_by_price c w px s) =
        s\<lparr>open_orders := AList.delete (p_prec c px) (open_orders s)\<rparr>"
      by (simp add: safe_cancel_by_price_def Let_def)
    moreover have "ids_ok w \<longrightarrow> map_of (open_orders s) (p_prec c px) = None"
      using books_ok_no_empty_id[OF _ Some] assms True by (auto simp: orders_ok_def)
    then have "orders_ok w (s\<lparr>open_orders := AList.delete (p_prec c px) (open_orders s)\<rparr>)"
      by (intro orders_ok_remove_absent[OF assms, of "p_prec c px"]) simp_all
    ultimately show ?thesis by simp
  next
    case False
    have "open_orders (snd (safe_cancel_by_price c w px s)) = AList.delete (p_prec c px) (open_orders s)"
      "order_meta (snd (safe_cancel_by_price c w px s)) = AList.delete oid (order_meta s)"
      using Some False by (simp_all add: safe_cancel_by_price_def Let_def)
    then show ?thesis by (intro orders_ok_remove[OF assms, of "p_prec c px" oid]) (simp_all add: Some)
  qed
qed

lemma cancel_loop_orders_ok:
  assumes "orders_ok w s" and "distinct (map fst xs)"
    and "\<forall>(p, oid)\<in>set xs. map_of (open_orders s) p = Some oid"
  shows "orders_ok w (cancel_loop w xs s)"
  using assms
proof (induction xs arbitrary: s)
  case Nil
  then show ?case by simp
next
  case (Cons x xs)
  obtain p oid where x: "x = (p, oid)" by (cases x)
  let ?s1 = "s\<lparr>calls := calls s @ [CancelOrder oid]\<rparr>"
  let ?s2 = "if cancel_order w (calls ?s1) then ?s1 else ?s1\<lparr>out := out ?s1 @ [CancelErr oid]\<rparr>"
  let ?s3 = "?s2\<lparr>order_meta := AList.delete oid (order_meta ?s2),
                 open_orders := AList.delete p (open_orders ?s2)\<rparr>"
  have step: "cancel_loop w (x # xs) s = cancel_loop w xs ?s3"
    unfolding x by (simp add: Let_def)
  have oo: "open_orders ?s3 = AList.delete p (open_orders s)"
    and om: "order_meta ?s3 = AList.delete oid (order_meta s)" by simp_all
  have reg: "map_of (open_orders s) p = Some oid" using Cons.prems(3) x by simp
  have ok: "orders_ok w ?s3"
    by (rule orders_ok_remove[OF Cons.prems(1) _ oo om]) (simp add: reg)
  have d: "distinct (map fst xs)" and np: "p \<notin> fst ` set xs" using Cons.prems(2) x by simp_all
  have r: "\<forall>(p', oid')\<in>set xs. map_of (open_orders ?s3) p' = Some oid'"
  proof (intro ballI, clarify)
    fix p' oid' assume m: "(p', oid') \<in> set xs"
    then have "p' \<noteq> p" using np by force
    moreover have "map_of (open_orders s) p' = Some oid'" using Cons.prems(3) m by auto
    ultimately show "map_of (open_orders ?s3) p' = Some oid'" unfolding oo by simp
  qed
  show ?case unfolding step by (rule Cons.IH[OF ok d r])
qed

lemma cancel_all_open_orders_orders_ok:
  assumes "orders_ok w s"
  shows "orders_ok w (cancel_all_open_orders w s)"
proof -
  have d: "distinct (map fst (open_orders s))" using assms by (simp add: orders_ok_def)
  then have "\<forall>(p, oid)\<in>set (open_orders s). map_of (open_orders s) p = Some oid" by auto
  from cancel_loop_orders_ok[OF assms d this]
  show ?thesis unfolding cancel_all_open_orders_def Let_def
    by (rule orders_ok_frame) simp_all
qed

lemma cmd_place_limit_orders_ok:
  assumes "orders_ok w s"
  shows "orders_ok w (cmd_place_limit w side px cts ro s)"
proof (cases "px \<in> fst ` set (open_orders s)")
  case True
  then have "cmd_place_limit w side px cts ro s = s\<lparr>out := out s @ [CmdSkipPlaceLimit px]\<rparr>"
    by (simp add: cmd_place_limit_def)
  then show ?thesis using orders_ok_frame[OF assms, of "s\<lparr>out := out s @ [CmdSkipPlaceLimit px]\<rparr>"] by simp
next
  case False
  let ?req = "CreateOrder ''limit'' side cts (Some px) (side = SELL \<and> ro)"
  show ?thesis
  proof (cases "create_order w (calls s @ [?req])")
    case None
    have "open_orders (cmd_place_limit w side px cts ro s) = open_orders s"
      "order_meta (cmd_place_limit w side px cts ro s) = order_meta s"
      using False None by (simp_all add: cmd_place_limit_def Let_def)
    then show ?thesis by (rule orders_ok_frame[OF assms])
  next
    case (Some oid)
    have "open_orders (cmd_place_limit w side px cts ro s) = AList.update px oid (open_orders s)"
      "order_meta (cmd_place_limit w side px cts ro s) =
         AList.update oid \<lparr>m_price = px, m_side = side, m_last_filled = 0\<rparr> (order_meta s)"
      using False Some by (simp_all add: cmd_place_limit_def Let_def)
    moreover have "ids_ok w \<longrightarrow> oid \<noteq> []" using Some by (auto simp: ids_ok_def)
    ultimately show ?thesis by (intro orders_ok_place[OF assms False, of oid]) simp_all
  qed
qed

lemma cmd_restore_level_orders_ok:
  assumes "orders_ok w s"
  shows "orders_ok w (cmd_restore_level c w p s)"
proof -
  obtain mk cs where m: "current_mark_or_mid c w s = (mk, s\<lparr>calls := calls s @ cs\<rparr>)"
    by (rule current_mark_or_mid_state)
  let ?s1 = "s\<lparr>calls := calls s @ cs\<rparr>"
  let ?sd = "if p < mk then BUY else SELL"
  obtain placed s2 where sp: "safe_place c w ?sd p (grid_qty c p) ?s1 = (placed, s2)"
    by (cases "safe_place c w ?sd p (grid_qty c p) ?s1")
  have "orders_ok w ?s1" by (rule orders_ok_frame[OF assms]) simp_all
  from safe_place_orders_ok[OF this, of c ?sd p "grid_qty c p"] sp have ok2: "orders_ok w s2" by simp
  have "cmd_restore_level c w p s = s\<lparr>out := out s @ [CmdRestoreSkippedHasOrder p]\<rparr>
      \<or> cmd_restore_level c w p s = s\<lparr>out := out s @ [CmdRestoreSkippedQty p]\<rparr>
      \<or> cmd_restore_level c w p s = s2
      \<or> cmd_restore_level c w p s = s2\<lparr>out := out s2 @ [CmdRestoreFailed p]\<rparr>"
    using m sp by (simp add: cmd_restore_level_def Let_def)
  moreover have "orders_ok w (s\<lparr>out := xs\<rparr>)" for xs by (rule orders_ok_frame[OF assms]) simp_all
  moreover have "orders_ok w (s2\<lparr>out := xs\<rparr>)" for xs by (rule orders_ok_frame[OF ok2]) simp_all
  ultimately show ?thesis using ok2 by metis
qed

lemma process_command_orders_ok:
  assumes "orders_ok w s"
  shows "orders_ok w (snd (process_command c w cmd s))"
proof (cases cmd)
  case (JObj kvs)
  have a: "orders_ok w (cancel_all_open_orders w s)"
    using assms by (rule cancel_all_open_orders_orders_ok)
  have b: "orders_ok w (snd (safe_cancel_by_price c w x s))" for x
    using assms by (rule safe_cancel_by_price_orders_ok)
  have b': "orders_ok w ((snd (safe_cancel_by_price c w x s))\<lparr>out := xs\<rparr>)" for x xs
    by (rule orders_ok_frame[OF b[of x]]) simp_all
  have d: "orders_ok w (cmd_place_limit w side px cts ro s)" for side px cts ro
    using assms by (rule cmd_place_limit_orders_ok)
  have e: "orders_ok w (cmd_restore_level c w p s)" for p
    using assms by (rule cmd_restore_level_orders_ok)
  show ?thesis
    unfolding JObj process_command_def
    using assms a b b' d e
    by (simp add: Let_def split: option.splits sum.splits)
qed (simp_all add: process_command_def assms)

lemma command_loop_orders_ok:
  "orders_ok w s \<Longrightarrow> orders_ok w (snd (command_loop c w lns s))"
proof (induction lns arbitrary: s)
  case Nil
  then show ?case by simp
next
  case (Cons ln lns)
  show ?case
  proof (cases ln)
    case None
    then show ?thesis using Cons by simp
  next
    case (Some cmd)
    obtain r s' where p: "process_command c w cmd s = (r, s')" by (cases "process_command c w cmd s")
    from process_command_orders_ok[OF Cons.prems, of c cmd] p have ok: "orders_ok w s'" by simp
    show ?thesis
    proof (cases r)
      case None
      then show ?thesis using Some p Cons.IH[OF ok] by simp
    next
      case (Some e)
      then show ?thesis using \<open>ln = Some cmd\<close> p ok by simp
    qed
  qed
qed

lemma process_commands_orders_ok:
  assumes "orders_ok w s"
  shows "orders_ok w (process_commands c w s)"
proof (cases "commands_file s")
  case None
  then show ?thesis using assms by (simp add: process_commands_def)
next
  case (Some lns)
  let ?s0 = "s\<lparr>commands_file := Some []\<rparr>"
  have "orders_ok w ?s0" by (rule orders_ok_frame[OF assms]) simp_all
  from command_loop_orders_ok[OF this, of c lns]
  obtain r s' where l: "command_loop c w lns ?s0 = (r, s')" and ok: "orders_ok w s'"
    by (cases "command_loop c w lns ?s0") simp
  have "orders_ok w (s'\<lparr>out := xs\<rparr>)" for xs by (rule orders_ok_frame[OF ok]) simp_all
  then show ?thesis using Some l ok by (simp add: process_commands_def split: option.splits)
qed

lemma on_fill_books:
  "open_orders (snd (on_fill cs fr side px cts s)) = open_orders s"
  "order_meta (snd (on_fill cs fr side px cts s)) = order_meta s"
  by (simp_all add: on_fill_def Let_def)

lemma book_increment_orders_ok:
  assumes "orders_ok w s"
  shows "orders_ok w (snd (book_increment c oid m filled s))"
    and "open_orders (snd (book_increment c oid m filled s)) = open_orders s"
proof -
  let ?inc = "max 0 (filled - m_last_filled m)"
  obtain r s' where f: "on_fill (contract_size c) (fee_rate c) (m_side m) (m_price m) ?inc s = (r, s')"
    by (cases "on_fill (contract_size c) (fee_rate c) (m_side m) (m_price m) ?inc s")
  from on_fill_books[of "contract_size c" "fee_rate c" "m_side m" "m_price m" ?inc s] f
  have fr: "open_orders s' = open_orders s" "order_meta s' = order_meta s" by simp_all
  have ok': "orders_ok w s'" by (rule orders_ok_frame[OF assms fr])
  let ?s2 = "s'\<lparr>order_meta := AList.map_entry oid (\<lambda>m'. m'\<lparr>m_last_filled := filled\<rparr>) (order_meta s')\<rparr>"
  have ok2: "orders_ok w ?s2" by (rule orders_ok_last_filled[OF ok', of _ oid filled]) simp_all
  have e: "snd (book_increment c oid m filled s) =
      (if 0 < ?inc then (case r of Some e \<Rightarrow> s' | None \<Rightarrow> ?s2) else s)"
    unfolding book_increment_def f by (simp split: option.splits)
  show "orders_ok w (snd (book_increment c oid m filled s))"
    unfolding e using assms ok' ok2 by (simp split: option.splits)
  show "open_orders (snd (book_increment c oid m filled s)) = open_orders s"
    unfolding e using fr by (simp split: option.splits)
qed

lemma poll_loop_orders_ok:
  assumes "orders_ok w s" and "pending_ok w todo s"
  shows "orders_ok w (snd (poll_loop c w todo s))"
  using assms
proof (induction todo arbitrary: s)
  case Nil
  then show ?case by simp
next
  case (Cons x rest)
  obtain oid m where x: "x = (oid, m)" by (cases x)
  let ?s1 = "s\<lparr>calls := calls s @ [FetchOrder oid]\<rparr>"
  have ok1: "orders_ok w ?s1" by (rule orders_ok_frame[OF Cons.prems(1)]) simp_all
  have pd1: "pending_ok w ((oid, m) # rest) ?s1"
    by (rule pending_ok_frame[OF Cons.prems(2)[unfolded x]]) simp
  have pdr: "pending_ok w rest s'" if "open_orders s' = open_orders s" for s'
    using Cons.prems(2) that unfolding x pending_ok_def by simp
  show ?case
  proof (cases "fetch_order w (calls ?s1)")
    case None
    have "poll_loop c w (x # rest) s = poll_loop c w rest ?s1"
      unfolding x using None by (simp add: Let_def)
    then show ?thesis using Cons.IH[OF ok1 pdr[of ?s1]] by simp
  next
    case (Some od)
    obtain r s2 where b: "book_increment c oid m (o_filled od) ?s1 = (r, s2)"
      by (cases "book_increment c oid m (o_filled od) ?s1")
    from book_increment_orders_ok[OF ok1, of c oid m "o_filled od"] b
    have ok2: "orders_ok w s2" and oo2: "open_orders s2 = open_orders s" by simp_all
    show ?thesis
    proof (cases r)
      case (Some e)
      then have "poll_loop c w (x # rest) s = (Some e, s2)"
        unfolding x using \<open>fetch_order w (calls ?s1) = Some od\<close> b by (simp add: Let_def)
      then show ?thesis using ok2 by simp
    next
      case None
      show ?thesis
      proof (cases "map lower_char (o_status od) = ''closed''")
        case False
        then have "poll_loop c w (x # rest) s = poll_loop c w rest s2"
          unfolding x using \<open>fetch_order w (calls ?s1) = Some od\<close> b None by (simp add: Let_def)
        then show ?thesis using Cons.IH[OF ok2 pdr[OF oo2]] by simp
      next
        case True
        let ?s3 = "s2\<lparr>open_orders := AList.delete (m_price m) (open_orders s2),
                       order_meta := AList.delete oid (order_meta s2)\<rparr>"
        let ?s4 = "handle_post_close c w (m_side m) (m_price m) (o_filled od) ?s3"
        have step: "poll_loop c w (x # rest) s = poll_loop c w rest ?s4"
          unfolding x using \<open>fetch_order w (calls ?s1) = Some od\<close> b None True by (simp add: Let_def)
        have hd: "ids_ok w \<longrightarrow> map_of (open_orders s2) (m_price m) = Some oid"
          using Cons.prems(2) unfolding x pending_ok_def oo2 by simp
        have ok3: "orders_ok w ?s3"
          by (rule orders_ok_remove[OF ok2 hd]) simp_all
        have ok4: "orders_ok w ?s4" using ok3 by (rule handle_post_close_orders_ok)
        have pd4: "pending_ok w rest ?s4"
          unfolding pending_ok_def
        proof (intro impI conjI ballI)
          assume i: "ids_ok w"
          from Cons.prems(2) i show "distinct (map fst rest)" unfolding x pending_ok_def by simp
          fix y assume y: "y \<in> set rest"
          obtain o' m' where y': "y = (o', m')" by (cases y)
          from Cons.prems(2) i y have k: "map_of (open_orders s) (m_price m') = Some o'"
            unfolding x pending_ok_def y' by auto
          from Cons.prems(2) i y have "o' \<noteq> oid"
            unfolding x pending_ok_def y' by force
          have "m_price m' \<noteq> m_price m"
          proof
            assume "m_price m' = m_price m"
            with k hd i oo2 have "Some o' = Some oid" by simp
            with \<open>o' \<noteq> oid\<close> show False by simp
          qed
          then have "map_of (open_orders ?s3) (m_price m') = Some o'" using k oo2 by simp
          then have "map_of (open_orders ?s4) (m_price m') = Some o'" by (rule handle_post_close_keeps)
          then show "case y of (oid, m) \<Rightarrow> map_of (open_orders ?s4) (m_price m) = Some oid"
            unfolding y' by simp
        qed
        show ?thesis unfolding step by (rule Cons.IH[OF ok4 pd4])
      qed
    qed
  qed
qed

lemma poll_and_handle_fills_orders_ok:
  assumes "orders_ok w s"
  shows "orders_ok w (snd (poll_and_handle_fills c w s))"
proof -
  have "pending_ok w (order_meta s) s"
    using assms unfolding pending_ok_def orders_ok_def books_ok_def registered_def by blast
  from poll_loop_orders_ok[OF assms this] show ?thesis by (simp add: poll_and_handle_fills_def)
qed

lemma init_loop_orders_ok:
  "orders_ok w s \<Longrightarrow> orders_ok w (snd (init_loop c w px ps tot s))"
proof (induction ps arbitrary: tot s)
  case Nil
  then show ?case by simp
next
  case (Cons p ps)
  have sp: "orders_ok w (snd (safe_place c w side p qty s))" for side qty
    using Cons.prems by (rule safe_place_orders_ok)
  obtain r s' where s: "safe_place c w SELL p (grid_qty c p) s = (r, s')"
    by (cases "safe_place c w SELL p (grid_qty c p) s")
  with sp[of SELL "grid_qty c p"] have ok': "orders_ok w s'" by simp
  have "\<exists>tot' s''. init_loop c w px (p # ps) tot s = init_loop c w px ps tot' s'' \<and> orders_ok w s''"
  proof (cases "grid_qty c p \<le> 0")
    case True
    then show ?thesis using Cons.prems by auto
  next
    case q: False
    show ?thesis
    proof (cases "p > px")
      case True
      then have "init_loop c w px (p # ps) tot s =
          init_loop c w px ps (case r of None \<Rightarrow> tot | Some oid \<Rightarrow> tot + grid_qty c p) s'"
        using q s by (simp split: option.splits)
      then show ?thesis using ok' by blast
    next
      case False
      show ?thesis
      proof (cases "p < px")
        case True
        then have "init_loop c w px (p # ps) tot s =
            init_loop c w px ps tot (snd (safe_place c w BUY p (grid_qty c p) s))"
          using q False by simp
        then show ?thesis using sp by blast
      next
        case nl: False
        then have "init_loop c w px (p # ps) tot s = init_loop c w px ps tot s"
          using q False by simp
        then show ?thesis using Cons.prems by blast
      qed
    qed
  qed
  then obtain tot' s'' where "init_loop c w px (p # ps) tot s = init_loop c w px ps tot' s''"
    and "orders_ok w s''" by blast
  then show ?case using Cons.IH[of s'' tot'] by simp
qed

lemma place_market_state:
  obtains r m where "place_market c w side qty s =
     (r, s\<lparr>calls := calls s @ [CreateOrder ''market'' side (q_prec c qty) None False], out := out s @ [m]\<rparr>)"
    and "\<not> is_close_event m"
  by (cases "create_order w (calls s @ [CreateOrder ''market'' side (q_prec c qty) None False])")
    (simp_all add: place_market_def Let_def)

lemma initialize_full_grid_once_orders_ok:
  assumes "orders_ok w s"
  shows "orders_ok w (initialize_full_grid_once c w s)"
proof (cases "initialized_full s")
  case True
  then show ?thesis using assms by (simp add: initialize_full_grid_once_def)
next
  case False
  obtain mk cs where m: "current_mark_or_mid c w s = (mk, s\<lparr>calls := calls s @ cs\<rparr>)"
    by (rule current_mark_or_mid_state)
  let ?s1 = "s\<lparr>calls := calls s @ cs\<rparr>"
  have ok1: "orders_ok w ?s1" by (rule orders_ok_frame[OF assms]) simp_all
  obtain tot s2 where l: "init_loop c w mk (levels c) 0 ?s1 = (tot, s2)"
    by (cases "init_loop c w mk (levels c) 0 ?s1")
  from init_loop_orders_ok[OF ok1, of c mk "levels c" 0] l have ok2: "orders_ok w s2" by simp
  obtain r msg where pm: "place_market c w BUY tot s2 =
     (r, s2\<lparr>calls := calls s2 @ [CreateOrder ''market'' BUY (q_prec c tot) None False], out := out s2 @ [msg]\<rparr>)"
    by (rule place_market_state)
  let ?s3 = "if init_position_enabled c \<and> tot > 0 then snd (place_market c w BUY tot s2) else s2"
  have ok3: "orders_ok w ?s3"
    unfolding pm using ok2 orders_ok_frame[OF ok2] by simp
  have "initialize_full_grid_once c w s =
      ?s3\<lparr>initialized_full := True, out := out ?s3 @ [Initialized (init_position_enabled c) mk tot]\<rparr>"
    using False m l by (simp add: initialize_full_grid_once_def Let_def)
  then show ?thesis using orders_ok_frame[OF ok3] by simp
qed

lemma snapshot_and_dump_state:
  obtains r cs b t es where
    "snapshot_and_dump c w s =
       (r, s\<lparr>calls := calls s @ cs, band_cache := b, band_ts := t, equity_series := es\<rparr>)"
proof -
  obtain px cs1 where m: "current_mark_or_mid c w s = (px, s\<lparr>calls := calls s @ cs1\<rparr>)"
    by (rule current_mark_or_mid_state)
  let ?s1 = "s\<lparr>calls := calls s @ cs1\<rparr>"
  let ?es = "deque_append 5000 (equity_series ?s1)
      \<lparr>e_equity = realized_pnl ?s1 + unrealized c px (inventory ?s1), e_realized = realized_pnl ?s1,
       e_unrealized = unrealized c px (inventory ?s1)\<rparr>"
  let ?s2 = "?s1\<lparr>equity_series := ?es\<rparr>"
  obtain band cs2 b t where
    f: "fetch_price_band_cached c w px ?s2 =
          (band, ?s2\<lparr>calls := calls ?s2 @ cs2, band_cache := b, band_ts := t\<rparr>)"
    by (rule fetch_price_band_cached_state)
  let ?s3 = "?s2\<lparr>calls := calls ?s2 @ cs2, band_cache := b, band_ts := t\<rparr>"
  let ?s4 = "?s3\<lparr>calls := calls ?s3 @ [WriteState (snapshot_doc c px band ?s3)]\<rparr>"
  have "\<exists>r cs b t es. snapshot_and_dump c w s =
       (r, s\<lparr>calls := calls s @ cs, band_cache := b, band_ts := t, equity_series := es\<rparr>)"
  proof (cases "total_contracts (inventory ?s1) > EPS \<and> total_contracts (inventory ?s1) * contract_size c = 0")
    case True
    have "snapshot_and_dump c w s = (Some ZeroDivisionError, ?s1)"
      unfolding snapshot_and_dump_def m Let_def prod.case if_P[OF True] ..
    moreover have "?s1 = s\<lparr>calls := calls s @ cs1, band_cache := band_cache s, band_ts := band_ts s,
        equity_series := equity_series s\<rparr>" by simp
    ultimately show ?thesis by metis
  next
    case False
    have "snapshot_and_dump c w s = (if write_state w (calls ?s4) then (None, ?s4) else (Some OSError, ?s4))"
      unfolding snapshot_and_dump_def m Let_def prod.case if_not_P[OF False] f ..
    then have e: "snapshot_and_dump c w s = (if write_state w (calls ?s4) then None else Some OSError, ?s4)"
      by (simp only: if_distrib[of "\<lambda>r. (r, ?s4)", symmetric])
    have "?s4 = s\<lparr>calls := calls s @ (cs1 @ cs2 @ [WriteState (snapshot_doc c px band ?s3)]),
        band_cache := b, band_ts := t, equity_series := ?es\<rparr>" by simp
    with e show ?thesis by metis
  qed
  then show ?thesis using that by blast
qed

lemma snapshot_and_dump_orders_ok:
  assumes "orders_ok w s"
  shows "orders_ok w (snd (snapshot_and_dump c w s))"
proof -
  obtain r cs b t es where "snapshot_and_dump c w s =
       (r, s\<lparr>calls := calls s @ cs, band_cache := b, band_ts := t, equity_series := es\<rparr>)"
    by (rule snapshot_and_dump_state)
  then show ?thesis using orders_ok_frame[OF assms] by simp
qed

lemma apply_op_orders_ok:
  assumes "orders_ok w s"
  shows "orders_ok w (apply_op c w x s)"
proof (cases x)
  case Initialize
  then show ?thesis using assms by (simp add: initialize_full_grid_once_orders_ok)
next
  case Commands
  then show ?thesis using assms by (simp add: process_commands_orders_ok)
next
  case Poll
  then show ?thesis using assms by (simp add: poll_and_handle_fills_orders_ok)
next
  case Snapshot
  then show ?thesis using assms by (simp add: snapshot_and_dump_orders_ok)
next
  case (Enqueue lns)
  have "orders_ok w (enqueue lns s)"
    by (rule orders_ok_frame[OF assms]) (simp_all add: enqueue_def)
  then show ?thesis using Enqueue by simp
next
  case (SafePlace side px qty)
  then show ?thesis using assms by (simp add: safe_place_orders_ok)
next
  case (CancelByPrice px)
  then show ?thesis using assms by (simp add: safe_cancel_by_price_orders_ok)
next
  case CancelAll
  then show ?thesis using assms by (simp add: cancel_all_open_orders_orders_ok)
next
  case (PostClose side px filled)
  then show ?thesis using assms by (simp add: handle_post_close_orders_ok)
next
  case (Fill side px cts)
  have "orders_ok w (snd (on_fill (contract_size c) (fee_rate c) side px cts s))"
    by (rule orders_ok_frame[OF assms]) (simp_all add: on_fill_books)
  then show ?thesis using Fill by simp
qed

lemma apply_ops_orders_ok:
  "orders_ok w s \<Longrightarrow> orders_ok w (apply_ops c w ops s)"
  by (induction ops arbitrary: s) (simp_all add: apply_op_orders_ok)

lemma new_engine_orders_ok: "orders_ok w (new_engine ip)"
  by (simp add: orders_ok_def books_ok_def registered_def new_engine_def)

lemma books_ok_distinct_prices:
  assumes "books_ok s"
  shows "distinct (map (\<lambda>(oid, m). m_price m) (order_meta s))"
proof -
  have d: "distinct (map fst (order_meta s))" using assms by (rule books_okD)
  then have "distinct (order_meta s)" by (simp add: distinct_map)
  moreover have "inj_on (\<lambda>(oid, m). m_price m) (set (order_meta s))"
  proof (rule inj_onI)
    fix x y assume x: "x \<in> set (order_meta s)" and y: "y \<in> set (order_meta s)"
      and e: "(case x of (oid, m) \<Rightarrow> m_price m) = (case y of (oid, m) \<Rightarrow> m_price m)"
    obtain o1 m1 o2 m2 where xy: "x = (o1, m1)" "y = (o2, m2)" by (cases x, cases y)
    from registeredD[OF books_okD(3)[OF assms]] x y xy
    have "map_of (open_orders s) (m_price m1) = Some o1" "map_of (open_orders s) (m_price m2) = Some o2"
      by simp_all
    with e xy have "o1 = o2" by simp
    with d x y xy have "m1 = m2" by (metis eq_key_imp_eq_value)
    with \<open>o1 = o2\<close> xy show "x = y" by simp
  qed
  ultimately show ?thesis by (simp add: distinct_map)
qed

subsection \<open>Claim C1: one open order per price\<close>

text \<open>
  C1. After every sequence of engine operations (grid initialization, commands, polling
  with its replenishment, snapshots, and the placing and cancelling methods called on
  their own) no two entries of \<^verbatim>\<open>open_orders\<close> share a price; when the venue never
  returns an empty order id, no two orders tracked in \<^verbatim>\<open>order_meta\<close> share a price either,
  each being the one registered at its price. \<^verbatim>\<open>safe_place\<close> at a price that already has
  an entry returns \<open>None\<close> and leaves the whole state, the calls made included, as it
  was; a \<^verbatim>\<open>place_limit\<close> command at such a price only prints that it was skipped.
\<close>

theorem one_open_order_per_price:
  "distinct (map fst (open_orders (apply_ops c w ops (new_engine ip))))
   \<and> (ids_ok w \<longrightarrow>
        distinct (map (\<lambda>(oid, m). m_price m) (order_meta (apply_ops c w ops (new_engine ip)))) \<and>
        registered (apply_ops c w ops (new_engine ip)))
   \<and> (p_prec c px \<in> fst ` set (open_orders s) \<longrightarrow> safe_place c w side px qty s = (None, s))
   \<and> (jget kvs ''op'' = Some (JStr ''place_limit'') \<and> jget kvs ''side'' = Some sd \<and>
       field_float c kvs ''price'' = Inr x \<and> field_float c kvs ''contracts'' = Inr cts \<and>
       p_prec c x \<in> fst ` set (open_orders s) \<longrightarrow>
       process_command c w (JObj kvs) s = (None, s\<lparr>out := out s @ [CmdSkipPlaceLimit (p_prec c x)]\<rparr>))"
proof -
  have ok: "orders_ok w (apply_ops c w ops (new_engine ip))"
    using new_engine_orders_ok by (rule apply_ops_orders_ok)
  then have 1: "distinct (map fst (open_orders (apply_ops c w ops (new_engine ip))))"
    by (simp add: orders_ok_def)
  have 2: "distinct (map (\<lambda>(oid, m). m_price m) (order_meta (apply_ops c w ops (new_engine ip)))) \<and>
        registered (apply_ops c w ops (new_engine ip))" if "ids_ok w"
    using ok that books_ok_distinct_prices[of "apply_ops c w ops (new_engine ip)"]
    by (simp add: orders_ok_def books_okD(3))
  have 3: "safe_place c w side px qty s = (None, s)" if "p_prec c px \<in> fst ` set (open_orders s)"
    using that by (simp add: safe_place_def)
  have 4: "process_command c w (JObj kvs) s = (None, s\<lparr>out := out s @ [CmdSkipPlaceLimit (p_prec c x)]\<rparr>)"
    if "jget kvs ''op'' = Some (JStr ''place_limit'')" "jget kvs ''side'' = Some sd"
       "field_float c kvs ''price'' = Inr x" "field_float c kvs ''contracts'' = Inr cts"
       "p_prec c x \<in> fst ` set (open_orders s)"
    unfolding process_command_place_limit[OF that(1-4)] using that(5) by (simp add: cmd_place_limit_def)
  show ?thesis using 1 2 3 4 by blast
qed

theorem one_open_order_per_price_witness:
  "ids_ok example_world
   \<and> open_orders (apply_ops (example_config False) example_world [Initialize, Commands, Poll]
        (new_engine False)) = [(100, ''o#####''), (110, ''o########'')]
   \<and> distinct (map (\<lambda>(oid, m). m_price m)
        (order_meta (apply_ops (example_config False) example_world [Initialize, Commands, Poll]
           (new_engine False))))
   \<and> safe_place (example_config False) example_world SELL 110 1
        (apply_ops (example_config False) example_world [Initialize, Commands, Poll] (new_engine False)) =
      (None, apply_ops (example_config False) example_world [Initialize, Commands, Poll] (new_engine False))"
proof -
  let ?c = "example_config False"
  let ?S = "apply_ops ?c example_world [Initialize, Commands, Poll] (new_engine False)"
  have e: "open_orders ?S = [(100, ''o#####''), (110, ''o########'')]" by code_simp
  have i: "ids_ok example_world" by (simp add: ids_ok_def example_world_simps)
  have k: "p_prec ?c 110 \<in> fst ` set (open_orders ?S)"
    unfolding e by (simp add: example_config_simps)
  from one_open_order_per_price[of ?c example_world "[Initialize, Commands, Poll]" False 110 ?S SELL 1]
  have "ids_ok example_world \<longrightarrow>
        distinct (map (\<lambda>(oid, m). m_price m) (order_meta ?S)) \<and> registered ?S"
    and "p_prec ?c 110 \<in> fst ` set (open_orders ?S) \<longrightarrow>
         safe_place ?c example_world SELL 110 1 ?S = (None, ?S)"
    by blast+
  with i k e show ?thesis by blast
qed

section \<open>The first-fill flag\<close>

lemma same_closes_refl: "same_closes s s"
  by (simp add: same_closes_def)

lemma same_closes_trans: "same_closes s s' \<Longrightarrow> same_closes s' s'' \<Longrightarrow> same_closes s s''"
  by (simp add: same_closes_def)

lemma same_closesI:
  "first_fill_ignore s' = first_fill_ignore s \<Longrightarrow> out s' = out s @ ms \<Longrightarrow>
   filter is_close_event ms = [] \<Longrightarrow> same_closes s s'"
  by (simp add: same_closes_def close_events_def)

lemma close_trace_ok_frame:
  "close_trace_ok ip s \<Longrightarrow> same_closes s s' \<Longrightarrow> close_trace_ok ip s'"
  by (simp add: close_trace_ok_def same_closes_def)

lemma safe_place_same_closes: "same_closes s (snd (safe_place c w side px qty s))"
proof (cases rule: safe_place_cases[of c px s w side qty])
  case dup
  then show ?thesis by (simp add: same_closes_refl)
next
  case (skip cs b t m)
  show ?thesis unfolding skip(4) using skip(3) by (intro same_closesI[of _ _ "[m]"]) simp_all
next
  case (refused cs b t m)
  show ?thesis unfolding refused(4) using refused(3) by (intro same_closesI[of _ _ "[m]"]) simp_all
next
  case (placed cs b t m oid)
  show ?thesis unfolding placed(5) using placed(3) by (intro same_closesI[of _ _ "[m]"]) simp_all
qed

lemma replenish_same_closes: "same_closes s (replenish c w side px s)"
  by (cases rule: replenish_cases[of c w side px s]) (simp_all add: same_closes_refl safe_place_same_closes)

lemma safe_cancel_by_price_same_closes: "same_closes s (snd (safe_cancel_by_price c w px s))"
proof -
  have "first_fill_ignore (snd (safe_cancel_by_price c w px s)) = first_fill_ignore s"
    by (simp add: safe_cancel_by_price_def Let_def split: option.splits)
  moreover have "\<exists>ms. out (snd (safe_cancel_by_price c w px s)) = out s @ ms \<and> filter is_close_event ms = []"
  proof (cases "map_of (open_orders s) (p_prec c px)")
    case None
    then have "out (snd (safe_cancel_by_price c w px s)) = out s @ []"
      by (simp add: safe_cancel_by_price_def Let_def)
    then show ?thesis by (intro exI[of _ "[]"]) simp
  next
    case (Some oid)
    show ?thesis
    proof (cases "oid = []")
      case True
      then have "out (snd (safe_cancel_by_price c w px s)) = out s @ []"
        using Some by (simp add: safe_cancel_by_price_def Let_def)
      then show ?thesis by (intro exI[of _ "[]"]) simp
    next
      case False
      let ?h = "calls s @ [CancelOrder oid]"
      have "out (snd (safe_cancel_by_price c w px s)) =
          out s @ (if cancel_order w ?h then [Canceled (p_prec c px)]
                   else [CancelErr oid, Canceled (p_prec c px)])"
        using Some False by (simp add: safe_cancel_by_price_def Let_def)
      then show ?thesis
        by (intro exI[of _ "if cancel_order w ?h then [Canceled (p_prec c px)]
                   else [CancelErr oid, Canceled (p_prec c px)]"]) simp
    qed
  qed
  ultimately show ?thesis using same_closesI by blast
qed

lemma cancel_loop_same_closes: "same_closes s (cancel_loop w xs s)"
proof (induction xs arbitrary: s)
  case Nil
  then show ?case by (simp add: same_closes_refl)
next
  case (Cons x xs)
  obtain p oid where x: "x = (p, oid)" by (cases x)
  let ?s1 = "s\<lparr>calls := calls s @ [CancelOrder oid]\<rparr>"
  let ?s2 = "if cancel_order w (calls ?s1) then ?s1 else ?s1\<lparr>out := out ?s1 @ [CancelErr oid]\<rparr>"
  let ?s3 = "?s2\<lparr>order_meta := AList.delete oid (order_meta ?s2),
                 open_orders := AList.delete p (open_orders ?s2)\<rparr>"
  have step: "cancel_loop w (x # xs) s = cancel_loop w xs ?s3"
    unfolding x by (simp add: Let_def)
  have "same_closes s ?s3"
    by (rule same_closesI[of _ _ "if cancel_order w (calls ?s1) then [] else [CancelErr oid]"]) simp_all
  then show ?case unfolding step using Cons.IH[of ?s3] by (rule same_closes_trans)
qed

lemma cancel_all_open_orders_same_closes: "same_closes s (cancel_all_open_orders w s)"
proof -
  let ?s1 = "cancel_loop w (open_orders s) s"
  have "same_closes ?s1 (?s1\<lparr>out := out ?s1 @ [CanceledAll]\<rparr>)"
    by (rule same_closesI[of _ _ "[CanceledAll]"]) simp_all
  with cancel_loop_same_closes[of s w "open_orders s"] show ?thesis
    unfolding cancel_all_open_orders_def Let_def by (rule same_closes_trans)
qed

lemma cmd_place_limit_same_closes: "same_closes s (cmd_place_limit w side px cts ro s)"
proof -
  let ?req = "CreateOrder ''limit'' side cts (Some px) (side = SELL \<and> ro)"
  have "first_fill_ignore (cmd_place_limit w side px cts ro s) = first_fill_ignore s"
    by (simp add: cmd_place_limit_def Let_def split: option.splits)
  moreover have "\<exists>m. out (cmd_place_limit w side px cts ro s) = out s @ [m] \<and> \<not> is_close_event m"
    by (cases "create_order w (calls s @ [?req])") (auto simp: cmd_place_limit_def Let_def)
  then have "\<exists>ms. out (cmd_place_limit w side px cts ro s) = out s @ ms \<and> filter is_close_event ms = []"
    by (metis filter.simps)
  ultimately show ?thesis using same_closesI by blast
qed

lemma cmd_restore_level_same_closes: "same_closes s (cmd_restore_level c w p s)"
proof -
  obtain mk cs where m: "current_mark_or_mid c w s = (mk, s\<lparr>calls := calls s @ cs\<rparr>)"
    by (rule current_mark_or_mid_state)
  let ?s1 = "s\<lparr>calls := calls s @ cs\<rparr>"
  let ?sd = "if p < mk then BUY else SELL"
  obtain placed s2 where sp: "safe_place c w ?sd p (grid_qty c p) ?s1 = (placed, s2)"
    by (cases "safe_place c w ?sd p (grid_qty c p) ?s1")
  have "same_closes s ?s1" by (rule same_closesI[of _ _ "[]"]) simp_all
  moreover from safe_place_same_closes[of ?s1 c w ?sd p "grid_qty c p"] sp have "same_closes ?s1 s2" by simp
  ultimately have s2: "same_closes s s2" by (rule same_closes_trans)
  have o: "same_closes s2 (s2\<lparr>out := out s2 @ [CmdRestoreFailed p]\<rparr>)"
    by (rule same_closesI[of _ _ "[CmdRestoreFailed p]"]) simp_all
  have a: "same_closes s (s\<lparr>out := out s @ [CmdRestoreSkippedHasOrder p]\<rparr>)"
    by (rule same_closesI[of _ _ "[CmdRestoreSkippedHasOrder p]"]) simp_all
  have b: "same_closes s (s\<lparr>out := out s @ [CmdRestoreSkippedQty p]\<rparr>)"
    by (rule same_closesI[of _ _ "[CmdRestoreSkippedQty p]"]) simp_all
  have "cmd_restore_level c w p s = s\<lparr>out := out s @ [CmdRestoreSkippedHasOrder p]\<rparr>
      \<or> cmd_restore_level c w p s = s\<lparr>out := out s @ [CmdRestoreSkippedQty p]\<rparr>
      \<or> cmd_restore_level c w p s = s2
      \<or> cmd_restore_level c w p s = s2\<lparr>out := out s2 @ [CmdRestoreFailed p]\<rparr>"
    using m sp by (simp add: cmd_restore_level_def Let_def)
  then show ?thesis using a b s2 same_closes_trans[OF s2 o] by metis
qed

lemma process_command_same_closes: "same_closes s (snd (process_command c w cmd s))"
proof (cases cmd)
  case (JObj kvs)
  have a: "same_closes s (cancel_all_open_orders w s)"
    by (rule cancel_all_open_orders_same_closes)
  have b: "same_closes s (snd (safe_cancel_by_price c w x s))" for x
    by (rule safe_cancel_by_price_same_closes)
  have b': "same_closes s ((snd (safe_cancel_by_price c w x s))\<lparr>out := out (snd (safe_cancel_by_price c w x s)) @ [CmdHold t y]\<rparr>)" for x t y
    by (rule same_closes_trans[OF b[of x]]) (rule same_closesI[of _ _ "[CmdHold t y]"], simp_all)
  have d: "same_closes s (cmd_place_limit w side px cts ro s)" for side px cts ro
    by (rule cmd_place_limit_same_closes)
  have e: "same_closes s (cmd_restore_level c w p s)" for p
    by (rule cmd_restore_level_same_closes)
  show ?thesis
    unfolding JObj process_command_def
    using a b b' d e same_closes_refl[of s]
    by (simp add: Let_def split: option.splits sum.splits)
qed (simp_all add: process_command_def same_closes_refl)

lemma command_loop_same_closes: "same_closes s (snd (command_loop c w lns s))"
proof (induction lns arbitrary: s)
  case Nil
  then show ?case by (simp add: same_closes_refl)
next
  case (Cons ln lns)
  show ?case
  proof (cases ln)
    case None
    then show ?thesis using Cons by simp
  next
    case (Some cmd)
    obtain r s' where p: "process_command c w cmd s = (r, s')" by (cases "process_command c w cmd s")
    from process_command_same_closes[of s c w cmd] p have ok: "same_closes s s'" by simp
    show ?thesis
    proof (cases r)
      case None
      then show ?thesis using Some p same_closes_trans[OF ok Cons.IH[of s']] by simp
    next
      case (Some e)
      then show ?thesis using \<open>ln = Some cmd\<close> p ok by simp
    qed
  qed
qed

lemma process_commands_same_closes: "same_closes s (process_commands c w s)"
proof (cases "commands_file s")
  case None
  then show ?thesis by (simp add: process_commands_def same_closes_refl)
next
  case (Some lns)
  let ?s0 = "s\<lparr>commands_file := Some []\<rparr>"
  have s0: "same_closes s ?s0" by (rule same_closesI[of _ _ "[]"]) simp_all
  obtain r s' where l: "command_loop c w lns ?s0 = (r, s')" by (cases "command_loop c w lns ?s0")
  from command_loop_same_closes[of ?s0 c w lns] l have "same_closes ?s0 s'" by simp
  with s0 have ok: "same_closes s s'" by (rule same_closes_trans)
  have "same_closes s' (s'\<lparr>out := out s' @ [ProcessCommandsError e]\<rparr>)" for e
    by (rule same_closesI[of _ _ "[ProcessCommandsError e]"]) simp_all
  with ok have "same_closes s (s'\<lparr>out := out s' @ [ProcessCommandsError e]\<rparr>)" for e
    by (rule same_closes_trans)
  then show ?thesis using Some l ok by (simp add: process_commands_def split: option.splits)
qed

lemma on_fill_same_closes: "same_closes s (snd (on_fill cs fr side px cts s))"
  by (rule same_closesI[of _ _ "[]"]) (simp_all add: on_fill_def Let_def)

lemma book_increment_same_closes: "same_closes s (snd (book_increment c oid m filled s))"
proof -
  let ?inc = "max 0 (filled - m_last_filled m)"
  obtain r s' where f: "on_fill (contract_size c) (fee_rate c) (m_side m) (m_price m) ?inc s = (r, s')"
    by (cases "on_fill (contract_size c) (fee_rate c) (m_side m) (m_price m) ?inc s")
  from on_fill_same_closes[of s "contract_size c" "fee_rate c" "m_side m" "m_price m" ?inc] f
  have ok': "same_closes s s'" by simp
  let ?s2 = "s'\<lparr>order_meta := AList.map_entry oid (\<lambda>m'. m'\<lparr>m_last_filled := filled\<rparr>) (order_meta s')\<rparr>"
  have "same_closes s' ?s2" by (rule same_closesI[of _ _ "[]"]) simp_all
  with ok' have ok2: "same_closes s ?s2" by (rule same_closes_trans)
  have e: "snd (book_increment c oid m filled s) =
      (if 0 < ?inc then (case r of Some e \<Rightarrow> s' | None \<Rightarrow> ?s2) else s)"
    unfolding book_increment_def f by (simp split: option.splits)
  show ?thesis unfolding e using ok' ok2 same_closes_refl[of s] by (simp split: option.splits)
qed

lemma init_loop_same_closes: "same_closes s (snd (init_loop c w px ps tot s))"
proof (induction ps arbitrary: tot s)
  case Nil
  then show ?case by (simp add: same_closes_refl)
next
  case (Cons p ps)
  have sp: "same_closes s (snd (safe_place c w side p qty s))" for side qty
    by (rule safe_place_same_closes)
  obtain r s' where s: "safe_place c w SELL p (grid_qty c p) s = (r, s')"
    by (cases "safe_place c w SELL p (grid_qty c p) s")
  with sp[of SELL "grid_qty c p"] have ok': "same_closes s s'" by simp
  have "\<exists>tot' s''. init_loop c w px (p # ps) tot s = init_loop c w px ps tot' s'' \<and> same_closes s s''"
  proof (cases "grid_qty c p \<le> 0")
    case True
    then show ?thesis using same_closes_refl[of s] by auto
  next
    case q: False
    show ?thesis
    proof (cases "p > px")
      case True
      then have "init_loop c w px (p # ps) tot s =
          init_loop c w px ps (case r of None \<Rightarrow> tot | Some oid \<Rightarrow> tot + grid_qty c p) s'"
        using q s by (simp split: option.splits)
      then show ?thesis using ok' by blast
    next
      case False
      show ?thesis
      proof (cases "p < px")
        case True
        then have "init_loop c w px (p # ps) tot s =
            init_loop c w px ps tot (snd (safe_place c w BUY p (grid_qty c p) s))"
          using q False by simp
        then show ?thesis using sp by blast
      next
        case nl: False
        then have "init_loop c w px (p # ps) tot s = init_loop c w px ps tot s"
          using q False by simp
        then show ?thesis using same_closes_refl[of s] by blast
      qed
    qed
  qed
  then obtain tot' s'' where "init_loop c w px (p # ps) tot s = init_loop c w px ps tot' s''"
    and "same_closes s s''" by blast
  then show ?case using same_closes_trans[OF _ Cons.IH[of s'' tot']] by simp
qed

lemma initialize_full_grid_once_same_closes: "same_closes s (initialize_full_grid_once c w s)"
proof (cases "initialized_full s")
  case True
  then show ?thesis by (simp add: initialize_full_grid_once_def same_closes_refl)
next
  case False
  obtain mk cs where m: "current_mark_or_mid c w s = (mk, s\<lparr>calls := calls s @ cs\<rparr>)"
    by (rule current_mark_or_mid_state)
  let ?s1 = "s\<lparr>calls := calls s @ cs\<rparr>"
  have ok1: "same_closes s ?s1" by (rule same_closesI[of _ _ "[]"]) simp_all
  obtain tot s2 where l: "init_loop c w mk (levels c) 0 ?s1 = (tot, s2)"
    by (cases "init_loop c w mk (levels c) 0 ?s1")
  from init_loop_same_closes[of ?s1 c w mk "levels c" 0] l have "same_closes ?s1 s2" by simp
  with ok1 have ok2: "same_closes s s2" by (rule same_closes_trans)
  obtain r msg where pm: "place_market c w BUY tot s2 =
     (r, s2\<lparr>calls := calls s2 @ [CreateOrder ''market'' BUY (q_prec c tot) None False], out := out s2 @ [msg]\<rparr>)"
    and nm: "\<not> is_close_event msg"
    by (rule place_market_state)
  let ?s3 = "if init_position_enabled c \<and> tot > 0 then snd (place_market c w BUY tot s2) else s2"
  have "same_closes s2 ?s3"
    unfolding pm using nm same_closes_refl[of s2] same_closesI[of _ s2 "[msg]"] by simp
  with ok2 have ok3: "same_closes s ?s3" by (rule same_closes_trans)
  let ?s4 = "?s3\<lparr>initialized_full := True, out := out ?s3 @ [Initialized (init_position_enabled c) mk tot]\<rparr>"
  have "same_closes ?s3 ?s4"
    by (rule same_closesI[of _ _ "[Initialized (init_position_enabled c) mk tot]"]) simp_all
  with ok3 have "same_closes s ?s4" by (rule same_closes_trans)
  moreover have "initialize_full_grid_once c w s = ?s4"
    using False m l by (simp add: initialize_full_grid_once_def Let_def)
  ultimately show ?thesis by simp
qed

lemma snapshot_and_dump_same_closes: "same_closes s (snd (snapshot_and_dump c w s))"
proof -
  obtain r cs b t es where "snapshot_and_dump c w s =
       (r, s\<lparr>calls := calls s @ cs, band_cache := b, band_ts := t, equity_series := es\<rparr>)"
    by (rule snapshot_and_dump_state)
  then show ?thesis using same_closesI[of _ s "[]"] by simp
qed

lemma close_trace_ok_closed:
  assumes "close_trace_ok ip s" and "\<not> first_fill_ignore s"
  shows "close_trace_ok ip (s\<lparr>out := out s @ [Closed side px filled]\<rparr>)"
proof (cases ip)
  case True
  with assms obtain a b f later where
    "close_events s = Closed a b f # FirstFillIgnored # later" "FirstFillIgnored \<notin> set later"
    by (auto simp: close_trace_ok_def)
  then have "close_events (s\<lparr>out := out s @ [Closed side px filled]\<rparr>) =
      Closed a b f # FirstFillIgnored # (later @ [Closed side px filled])"
    "FirstFillIgnored \<notin> set (later @ [Closed side px filled])"
    by (simp_all add: close_events_def)
  then show ?thesis using True assms(2) unfolding close_trace_ok_def by auto
next
  case False
  then show ?thesis using assms by (simp add: close_trace_ok_def close_events_def)
qed

lemma handle_post_close_close_trace_ok:
  assumes "close_trace_ok ip s"
  shows "close_trace_ok ip (handle_post_close c w side px filled s)"
proof (cases rule: handle_post_close_cases[of s c w side px filled])
  case ignored
  with assms have "ip" "close_events s = []" by (simp_all add: close_trace_ok_def)
  then show ?thesis unfolding ignored(2) by (simp add: close_trace_ok_def close_events_def)
next
  case normal
  have "close_trace_ok ip (s\<lparr>out := out s @ [Closed side px filled]\<rparr>)"
    using assms normal(1) by (rule close_trace_ok_closed)
  then show ?thesis unfolding normal(2) using replenish_same_closes by (rule close_trace_ok_frame)
qed

lemma poll_loop_close_trace_ok:
  "close_trace_ok ip s \<Longrightarrow> close_trace_ok ip (snd (poll_loop c w todo s))"
proof (induction todo arbitrary: s)
  case Nil
  then show ?case by simp
next
  case (Cons x rest)
  obtain oid m where x: "x = (oid, m)" by (cases x)
  let ?s1 = "s\<lparr>calls := calls s @ [FetchOrder oid]\<rparr>"
  have ok1: "close_trace_ok ip ?s1"
    by (rule close_trace_ok_frame[OF Cons.prems]) (rule same_closesI[of _ _ "[]"], simp_all)
  show ?case
  proof (cases "fetch_order w (calls ?s1)")
    case None
    have "poll_loop c w (x # rest) s = poll_loop c w rest ?s1"
      unfolding x using None by (simp add: Let_def)
    then show ?thesis using Cons.IH[OF ok1] by simp
  next
    case (Some od)
    obtain r s2 where b: "book_increment c oid m (o_filled od) ?s1 = (r, s2)"
      by (cases "book_increment c oid m (o_filled od) ?s1")
    from book_increment_same_closes[of ?s1 c oid m "o_filled od"] b
    have "same_closes ?s1 s2" by simp
    with ok1 have ok2: "close_trace_ok ip s2" by (rule close_trace_ok_frame)
    show ?thesis
    proof (cases r)
      case (Some e)
      then have "poll_loop c w (x # rest) s = (Some e, s2)"
        unfolding x using \<open>fetch_order w (calls ?s1) = Some od\<close> b by (simp add: Let_def)
      then show ?thesis using ok2 by simp
    next
      case None
      show ?thesis
      proof (cases "map lower_char (o_status od) = ''closed''")
        case False
        then have "poll_loop c w (x # rest) s = poll_loop c w rest s2"
          unfolding x using \<open>fetch_order w (calls ?s1) = Some od\<close> b None by (simp add: Let_def)
        then show ?thesis using Cons.IH[OF ok2] by simp
      next
        case True
        let ?s3 = "s2\<lparr>open_orders := AList.delete (m_price m) (open_orders s2),
                       order_meta := AList.delete oid (order_meta s2)\<rparr>"
        let ?s4 = "handle_post_close c w (m_side m) (m_price m) (o_filled od) ?s3"
        have step: "poll_loop c w (x # rest) s = poll_loop c w rest ?s4"
          unfolding x using \<open>fetch_order w (calls ?s1) = Some od\<close> b None True by (simp add: Let_def)
        have "close_trace_ok ip ?s3"
          by (rule close_trace_ok_frame[OF ok2]) (rule same_closesI[of _ _ "[]"], simp_all)
        then have "close_trace_ok ip ?s4" by (rule handle_post_close_close_trace_ok)
        then show ?thesis unfolding step by (rule Cons.IH)
      qed
    qed
  qed
qed

lemma apply_op_close_trace_ok:
  assumes "close_trace_ok ip s"
  shows "close_trace_ok ip (apply_op c w x s)"
proof (cases x)
  case Initialize
  then show ?thesis using close_trace_ok_frame[OF assms initialize_full_grid_once_same_closes] by simp
next
  case Commands
  then show ?thesis using close_trace_ok_frame[OF assms process_commands_same_closes] by simp
next
  case Poll
  then show ?thesis using poll_loop_close_trace_ok[OF assms] by (simp add: poll_and_handle_fills_def)
next
  case Snapshot
  then show ?thesis using close_trace_ok_frame[OF assms snapshot_and_dump_same_closes] by simp
next
  case (Enqueue lns)
  have "same_closes s (enqueue lns s)"
    by (rule same_closesI[of _ _ "[]"]) (simp_all add: enqueue_def)
  then show ?thesis using Enqueue close_trace_ok_frame[OF assms] by simp
next
  case (SafePlace side px qty)
  then show ?thesis using close_trace_ok_frame[OF assms safe_place_same_closes] by simp
next
  case (CancelByPrice px)
  then show ?thesis using close_trace_ok_frame[OF assms safe_cancel_by_price_same_closes] by simp
next
  case CancelAll
  then show ?thesis using close_trace_ok_frame[OF assms cancel_all_open_orders_same_closes] by simp
next
  case (PostClose side px filled)
  then show ?thesis using assms by (simp add: handle_post_close_close_trace_ok)
next
  case (Fill side px cts)
  then show ?thesis using close_trace_ok_frame[OF assms on_fill_same_closes] by simp
qed

lemma apply_ops_close_trace_ok:
  "close_trace_ok ip s \<Longrightarrow> close_trace_ok ip (apply_ops c w ops s)"
  by (induction ops arbitrary: s) (simp_all add: apply_op_close_trace_ok)

lemma new_engine_close_trace_ok: "close_trace_ok ip (new_engine ip)"
  by (simp add: close_trace_ok_def new_engine_def close_events_def)

subsection \<open>Claim C5: the first close is ignored once\<close>

text \<open>
  C5. Let the engine be constructed with the initial-hedge option of its configuration and
  run through any sequence of operations. With the option on, either the flag is still
  armed and no close was handled, or the flag is cleared and the close events begin with
  one close followed by \<open>FirstFillIgnored\<close>, which occurs nowhere later: exactly the first
  close is ignored. With the option off the flag is never armed and no close is ever
  ignored. A close handled with the flag armed only clears the flag and prints; a close
  handled with the flag cleared is the replenishment rule.
\<close>

theorem first_fill_ignored_once:
  "(init_position_enabled c \<longrightarrow>
      (first_fill_ignore (apply_ops c w ops (new_engine (init_position_enabled c))) \<and>
       close_events (apply_ops c w ops (new_engine (init_position_enabled c))) = []) \<or>
      (\<not> first_fill_ignore (apply_ops c w ops (new_engine (init_position_enabled c))) \<and>
       (\<exists>side px filled later.
          close_events (apply_ops c w ops (new_engine (init_position_enabled c))) =
            Closed side px filled # FirstFillIgnored # later \<and>
          FirstFillIgnored \<notin> set later)))
   \<and> (\<not> init_position_enabled c \<longrightarrow>
        \<not> first_fill_ignore (apply_ops c w ops (new_engine (init_position_enabled c))) \<and>
        FirstFillIgnored \<notin> set (out (apply_ops c w ops (new_engine (init_position_enabled c)))))
   \<and> (first_fill_ignore s \<longrightarrow>
        handle_post_close c w side px filled s =
          s\<lparr>first_fill_ignore := False, out := out s @ [Closed side px filled, FirstFillIgnored]\<rparr>)
   \<and> (\<not> first_fill_ignore s \<longrightarrow>
        handle_post_close c w side px filled s =
          replenish c w side px (s\<lparr>out := out s @ [Closed side px filled]\<rparr>))"
proof -
  let ?s = "apply_ops c w ops (new_engine (init_position_enabled c))"
  have ok: "close_trace_ok (init_position_enabled c) ?s"
    using new_engine_close_trace_ok by (rule apply_ops_close_trace_ok)
  have 1: "(first_fill_ignore ?s \<and> close_events ?s = []) \<or>
      (\<not> first_fill_ignore ?s \<and>
       (\<exists>side px filled later. close_events ?s = Closed side px filled # FirstFillIgnored # later \<and>
          FirstFillIgnored \<notin> set later))" if "init_position_enabled c"
    using ok that unfolding close_trace_ok_def by (cases "first_fill_ignore ?s") simp_all
  have 2: "\<not> first_fill_ignore ?s \<and> FirstFillIgnored \<notin> set (out ?s)" if "\<not> init_position_enabled c"
    using ok that unfolding close_trace_ok_def close_events_def
    by (cases "first_fill_ignore ?s") simp_all
  have 3: "handle_post_close c w side px filled s =
          s\<lparr>first_fill_ignore := False, out := out s @ [Closed side px filled, FirstFillIgnored]\<rparr>"
    if "first_fill_ignore s"
    using that by (simp add: handle_post_close_def Let_def)
  have 4: "handle_post_close c w side px filled s =
          replenish c w side px (s\<lparr>out := out s @ [Closed side px filled]\<rparr>)"
    if "\<not> first_fill_ignore s"
    using that by (simp add: handle_post_close_def Let_def)
  show ?thesis using 1 2 3 4 by blast
qed

theorem first_fill_ignored_once_witness:
  "init_position_enabled (example_config True)
   \<and> \<not> first_fill_ignore (apply_ops (example_config True) filling_world [Initialize, Poll]
          (new_engine (init_position_enabled (example_config True))))
   \<and> close_events (apply_ops (example_config True) filling_world [Initialize, Poll]
          (new_engine (init_position_enabled (example_config True)))) =
      [Closed BUY 100 1, FirstFillIgnored, Closed SELL 110 1]
   \<and> \<not> init_position_enabled (example_config False)
   \<and> FirstFillIgnored \<notin> set (out (apply_ops (example_config False) filling_world [Initialize, Poll]
          (new_engine (init_position_enabled (example_config False)))))"
proof -
  let ?S = "apply_ops (example_config True) filling_world [Initialize, Poll]
          (new_engine (init_position_enabled (example_config True)))"
  have i: "init_position_enabled (example_config True)" "\<not> init_position_enabled (example_config False)"
    by (simp_all add: example_config_simps)
  have e: "close_events ?S = [Closed BUY 100 1, FirstFillIgnored, Closed SELL 110 1]"
    by code_simp
  from first_fill_ignored_once[of "example_config True" filling_world "[Initialize, Poll]"] i(1)
  have "(first_fill_ignore ?S \<and> close_events ?S = []) \<or> \<not> first_fill_ignore ?S" by blast
  with e have 1: "\<not> first_fill_ignore ?S" by auto
  from first_fill_ignored_once[of "example_config False" filling_world "[Initialize, Poll]"] i(2)
  have 2: "FirstFillIgnored \<notin> set (out (apply_ops (example_config False) filling_world [Initialize, Poll]
          (new_engine (init_position_enabled (example_config False)))))" by blast
  from i e 1 2 show ?thesis by blast
qed

section \<open>Where the code leaves the claims\<close>

subsection \<open>Claim C6: the place-limit command does not check the price band\<close>

text \<open>
  C6 fails on the \<^verbatim>\<open>place_limit\<close> command. With the price limits 120 (buy) and 90 (sell),
  a command to buy at 1000 is sent to the venue and registered, while \<^verbatim>\<open>safe_place\<close> for
  the same order checks the band, prints the skip and sends no order.
\<close>

theorem place_limit_command_skips_band_check:
  "fst (fetch_price_band_cached (example_config False) example_world 105 (new_engine False)) = (120, 90)
   \<and> calls (snd (process_command (example_config False) example_world
        (JObj [(''op'', JStr ''place_limit''), (''side'', BUY), (''price'', JNum 1000),
               (''contracts'', JNum 1)]) (new_engine False))) =
       [CreateOrder ''limit'' BUY 1 (Some 1000) False]
   \<and> open_orders (snd (process_command (example_config False) example_world
        (JObj [(''op'', JStr ''place_limit''), (''side'', BUY), (''price'', JNum 1000),
               (''contracts'', JNum 1)]) (new_engine False))) = [(1000, ''o#'')]
   \<and> fst (safe_place (example_config False) example_world BUY 1000 1 (new_engine False)) = None
   \<and> out (snd (safe_place (example_config False) example_world BUY 1000 1 (new_engine False))) =
       [SkipBuy 1000 120]
   \<and> calls (snd (safe_place (example_config False) example_world BUY 1000 1 (new_engine False))) =
       [FetchTicker, Clock, PriceLimit]"
  by code_simp

subsection \<open>Claim C7: a failing command ends the batch\<close>

text \<open>
  C7 fails on a command whose exception no inner \<^verbatim>\<open>try\<close> catches. With one order open at
  100, a batch holding only \<^verbatim>\<open>cancel_all\<close> cancels it; the batch of a \<^verbatim>\<open>cancel_by_price\<close>
  without a price followed by the same \<^verbatim>\<open>cancel_all\<close> raises \<^verbatim>\<open>KeyError\<close> on the first
  line, the outer \<^verbatim>\<open>except\<close> prints it, the second line is never processed (the order
  stays open) and the file is already truncated.
\<close>

theorem process_commands_drops_rest_of_batch:
  "open_orders (snd (safe_place (example_config False) example_world BUY 100 1 (new_engine False))) =
     [(100, ''o####'')]
   \<and> open_orders (process_commands (example_config False) example_world
        (enqueue [Some (JObj [(''op'', JStr ''cancel_all'')])]
          (snd (safe_place (example_config False) example_world BUY 100 1 (new_engine False))))) = []
   \<and> open_orders (process_commands (example_config False) example_world
        (enqueue [Some (JObj [(''op'', JStr ''cancel_by_price'')]),
                  Some (JObj [(''op'', JStr ''cancel_all'')])]
          (snd (safe_place (example_config False) example_world BUY 100 1 (new_engine False))))) =
     [(100, ''o####'')]
   \<and> commands_file (process_commands (example_config False) example_world
        (enqueue [Some (JObj [(''op'', JStr ''cancel_by_price'')]),
                  Some (JObj [(''op'', JStr ''cancel_all'')])]
          (snd (safe_place (example_config False) example_world BUY 100 1 (new_engine False))))) =
     Some []
   \<and> out (process_commands (example_config False) example_world
        (enqueue [Some (JObj [(''op'', JStr ''cancel_by_price'')]),
                  Some (JObj [(''op'', JStr ''cancel_all'')])]
          (snd (safe_place (example_config False) example_world BUY 100 1 (new_engine False))))) =
     [Placed BUY 100 ''o####'', ProcessCommandsError KeyError]"
  by code_simp

subsection \<open>Claim C8: a failed snapshot write ends the main loop\<close>

text \<open>
  C8 fails. When the write of the state file raises, the exception leaves
  \<^verbatim>\<open>snapshot_and_dump\<close> and \<^verbatim>\<open>run_forever\<close>: of two ticks, the second of which would
  process a \<^verbatim>\<open>cancel_all\<close>, only the first runs, the command is never read and the two
  orders of the grid stay open; with a write that succeeds both ticks run and the orders
  are cancelled.
\<close>

theorem run_forever_ends_on_snapshot_error:
  "fst (run_forever (example_config False) (example_world\<lparr>write_state := (\<lambda>_. False)\<rparr>) 20
     [[], [Some (JObj [(''op'', JStr ''cancel_all'')])]] (new_engine False)) = Some OSError
   \<and> commands_file (snd (run_forever (example_config False)
        (example_world\<lparr>write_state := (\<lambda>_. False)\<rparr>) 20
        [[], [Some (JObj [(''op'', JStr ''cancel_all'')])]] (new_engine False))) = None
   \<and> open_orders (snd (run_forever (example_config False)
        (example_world\<lparr>write_state := (\<lambda>_. False)\<rparr>) 20
        [[], [Some (JObj [(''op'', JStr ''cancel_all'')])]] (new_engine False))) =
      [(100, ''o#####''), (110, ''o########'')]
   \<and> fst (run_forever (example_config False) example_world 20
     [[], [Some (JObj [(''op'', JStr ''cancel_all'')])]] (new_engine False)) = None
   \<and> open_orders (snd (run_forever (example_config False) example_world 20
     [[], [Some (JObj [(''op'', JStr ''cancel_all'')])]] (new_engine False))) = []"
  by code_simp

lemma run_loop_exception:
  "tick c w hb (i + 1) (enqueue lns s) = (Some e, s') \<Longrightarrow>
   run_loop c w hb i (lns # later) s = (Some e, s')"
  by simp

lemma tick_snapshot_exception:
  assumes "poll_and_handle_fills c w
             (process_commands c w (if \<not> initialized_full s then initialize_full_grid_once c w s else s)) =
           (None, s3)"
    and "snapshot_and_dump c w s3 = (Some e, s4)"
  shows "tick c w hb i s = (Some e, s4)"
  using assms by (simp add: tick_def Let_def)

end
